theory Spec2Isabelle
  imports Main "HOL-Library.Sublist" "HOL-Library.Char_ord" "HOL-Library.List_Lexorder"
begin

section \<open>Paths\<close>

text \<open>
  Every path the engine handles has gone through \<^verbatim>\<open>path.resolve\<close> or was joined onto
  a resolved root, so a path is modelled as the list of segments of an absolute,
  normalised POSIX path: \<^verbatim>\<open>/home/u/.claude\<close> is \<open>[''home'', ''u'', ''.claude'']\<close> and the
  filesystem root \<^verbatim>\<open>/\<close> is \<open>[]\<close>. On this representation \<^verbatim>\<open>path.resolve\<close> is the
  identity, \<^verbatim>\<open>path.join(dir, name)\<close> appends a segment and \<^verbatim>\<open>path.dirname\<close> drops the
  last one (the root is its own parent).
\<close>

type_synonym path = "string list"

definition resolvePath :: "path \<Rightarrow> path" where
  "resolvePath p = p"

definition join :: "path \<Rightarrow> string \<Rightarrow> path" where
  "join dir name = dir @ [name]"

definition dirname :: "path \<Rightarrow> path" where
  "dirname p = butlast p"

section \<open>The data model of backup.ts\<close>

datatype scope = Global | Project

datatype entry_kind = KFile | KDir | KSymlink

datatype entry_action = ABackup | ACreate

text \<open>\<^verbatim>\<open>BackupEntry\<close>; the optional field \<^verbatim>\<open>backupPath\<close> is \<open>entry_backupPath\<close>.\<close>

record BackupEntry =
  originalPath :: path
  entry_backupPath :: "path option"
  entry_kind :: entry_kind
  action :: entry_action

record BackupManifest =
  version :: nat
  createdAt :: string
  manifest_scope :: scope
  operation :: string
  entries :: "BackupEntry list"

text \<open>
  \<^verbatim>\<open>BackupSession\<close>. The field \<^verbatim>\<open>_seen\<close> is a JavaScript \<^verbatim>\<open>Set\<close>; it is kept as a
  duplicate-free list in insertion order.
\<close>

record BackupSession =
  session_dir :: path
  manifestPath :: path
  session_createdAt :: string
  session_scope :: scope
  session_operation :: string
  session_entries :: "BackupEntry list"
  seen :: "path list"

section \<open>The filesystem\<close>

text \<open>
  \<^verbatim>\<open>JSON.parse\<close> accepts every JSON text, and the cast
  \<^verbatim>\<open>as BackupManifest\<close> checks nothing. Of the value it returns, undo.ts tests the
  truthiness and reads the properties \<^verbatim>\<open>createdAt\<close> and \<^verbatim>\<open>entries\<close>, so a parsed value is
  kept as what these reads yield. A falsy value is \<^verbatim>\<open>null\<close>, \<^verbatim>\<open>false\<close>, \<^verbatim>\<open>0\<close> or the
  empty string. Of a truthy value, \<^verbatim>\<open>createdAt\<close> is a string, or it is anything else
  (\<^verbatim>\<open>undefined\<close> when the property is missing), kept as the string that \<^verbatim>\<open>ToString\<close>
  makes of it; \<^verbatim>\<open>entries\<close> is an array of entries, or falsy (missing, \<^verbatim>\<open>null\<close>,
  \<^verbatim>\<open>false\<close>, \<^verbatim>\<open>0\<close>, the empty string), or a value that \<^verbatim>\<open>for ... of\<close> cannot iterate
  (\<^verbatim>\<open>true\<close>, a number but \<^verbatim>\<open>0\<close>, an object that is not an array). So \<^verbatim>\<open>{}\<close> is
  \<open>JsonTruthy \<lparr>value_createdAt = OtherValue ''undefined'', value_entries = FalsyValue\<rparr>\<close>.
  A truthy value that is not an object is read through the same two properties: both are
  \<^verbatim>\<open>undefined\<close>, but the \<^verbatim>\<open>entries\<close> of an array, which is a method and cannot be
  iterated.
  An element of the array is read through \<^verbatim>\<open>action === 'create'\<close>,
  \<^verbatim>\<open>kind === 'symlink'\<close>, \<^verbatim>\<open>kind === 'dir'\<close> and the falsiness of \<^verbatim>\<open>backupPath\<close>: in a
  \<open>BackupEntry\<close> read from a file, \<open>ABackup\<close> stands for every action but \<^verbatim>\<open>create\<close>,
  \<open>KFile\<close> for every kind but \<^verbatim>\<open>symlink\<close> and \<^verbatim>\<open>dir\<close>, and \<open>None\<close> for a falsy backup
  path. The paths of an element are strings; an element that would hand another value to
  \<^verbatim>\<open>utils/fs.js\<close>, and an \<^verbatim>\<open>entries\<close> property that is a non-empty string, are not
  represented.
\<close>

datatype createdAtValue = StringValue string | OtherValue string

datatype entriesValue = ArrayValue "BackupEntry list" | FalsyValue | NotIterable

record ManifestValue =
  value_createdAt :: createdAtValue
  value_entries :: entriesValue

datatype json = JsonFalsy | JsonTruthy ManifestValue

text \<open>
  A regular file holds text that is not JSON (\<open>Text\<close>), the JSON text that
  \<^verbatim>\<open>JSON.stringify\<close> makes of a manifest (\<open>ManifestJson\<close>), or any other JSON text
  (\<open>JsonText\<close>), kept as the value it parses to.
\<close>

datatype content = Text string | ManifestJson BackupManifest | JsonText json

text \<open>What undo.ts can read of a manifest that \<^verbatim>\<open>finalizeBackup\<close> wrote.\<close>

definition valueOf :: "BackupManifest \<Rightarrow> ManifestValue" where
  "valueOf m = \<lparr>value_createdAt = StringValue (createdAt m), value_entries = ArrayValue (entries m)\<rparr>"

datatype errno = ENOENT | EEXIST | ENOTDIR | EISDIR | ENOTEMPTY | EINVAL | EXDEV | EBUSY

datatype error = IOError errno | NoBackups | JsonSyntaxError | TypeError

text \<open>\<^verbatim>\<open>JSON.parse\<close>, which throws a \<^verbatim>\<open>SyntaxError\<close> on text that is not JSON.\<close>

definition JSON_parse :: "content \<Rightarrow> error + json" where
  "JSON_parse raw =
     (case raw of
        Text _ \<Rightarrow> Inl JsonSyntaxError
      | ManifestJson m \<Rightarrow> Inr (JsonTruthy (valueOf m))
      | JsonText v \<Rightarrow> Inr v)"

datatype node = File content | Dir | Symlink path

text \<open>
  The filesystem is a finite table from paths to nodes (\<open>lstat\<close> semantics: a symbolic
  link is a node of its own and is never followed while a path is resolved) together with
  the list of mount points, which decides when \<^verbatim>\<open>rename\<close> fails with \<^verbatim>\<open>EXDEV\<close>. The
  root directory always exists.
\<close>

record filesys =
  nodes :: "(path \<times> node) list"
  mounts :: "path list"

definition lookup :: "filesys \<Rightarrow> path \<Rightarrow> node option" where
  "lookup s p = (if p = [] then Some Dir else map_of (nodes s) p)"

definition isDirectory :: "filesys \<Rightarrow> path \<Rightarrow> bool" where
  "isDirectory s p = (lookup s p = Some Dir)"

definition put :: "path \<Rightarrow> node \<Rightarrow> filesys \<Rightarrow> filesys" where
  "put p n s = s\<lparr>nodes := (p, n) # filter (\<lambda>(q, _). q \<noteq> p) (nodes s)\<rparr>"

definition removeTree :: "path \<Rightarrow> filesys \<Rightarrow> filesys" where
  "removeTree p s = s\<lparr>nodes := filter (\<lambda>(q, _). \<not> prefix p q) (nodes s)\<rparr>"

text \<open>The key of a node of the subtree at \<open>src\<close>, once that subtree stands at \<open>dst\<close>.\<close>

definition rekey :: "path \<Rightarrow> path \<Rightarrow> path \<Rightarrow> path" where
  "rekey src dst q = (if prefix src q then dst @ drop (length src) q else q)"

definition moveTree :: "path \<Rightarrow> path \<Rightarrow> filesys \<Rightarrow> filesys" where
  "moveTree src dst s =
     s\<lparr>nodes := map (\<lambda>(q, n). (rekey src dst q, n))
                    (filter (\<lambda>(q, _). prefix src q \<or> \<not> prefix dst q) (nodes s))\<rparr>"

definition copyTree :: "path \<Rightarrow> path \<Rightarrow> filesys \<Rightarrow> filesys" where
  "copyTree src dst s =
     s\<lparr>nodes := map (\<lambda>(q, n). (rekey src dst q, n)) (filter (\<lambda>(q, _). prefix src q) (nodes s))
                  @ filter (\<lambda>(q, _). \<not> prefix dst q) (nodes s)\<rparr>"

definition hasChildren :: "filesys \<Rightarrow> path \<Rightarrow> bool" where
  "hasChildren s p = (\<exists>(q, n) \<in> set (nodes s). strict_prefix p q)"

text \<open>The device of a path: the longest mount point that is a prefix of it.\<close>

definition deviceOf :: "filesys \<Rightarrow> path \<Rightarrow> path" where
  "deviceOf s p = foldl (\<lambda>best m. if prefix m p \<and> length best < length m then m else best) [] (mounts s)"

subsection \<open>The calls of \<^verbatim>\<open>fs.promises\<close>\<close>

definition lstat :: "path \<Rightarrow> filesys \<Rightarrow> errno + node" where
  "lstat p s = (case lookup s p of None \<Rightarrow> Inl ENOENT | Some n \<Rightarrow> Inr n)"

definition readlink :: "path \<Rightarrow> filesys \<Rightarrow> errno + path" where
  "readlink p s =
     (case lookup s p of None \<Rightarrow> Inl ENOENT | Some (Symlink t) \<Rightarrow> Inr t | Some _ \<Rightarrow> Inl EINVAL)"

definition symlink :: "path \<Rightarrow> path \<Rightarrow> filesys \<Rightarrow> errno + filesys" where
  "symlink linkText p s =
     (if lookup s p \<noteq> None then Inl EEXIST
      else if lookup s (dirname p) = None then Inl ENOENT
      else if \<not> isDirectory s (dirname p) then Inl ENOTDIR
      else Inr (put p (Symlink linkText) s))"

definition unlink :: "path \<Rightarrow> filesys \<Rightarrow> errno + filesys" where
  "unlink p s =
     (if p = [] then Inl EISDIR
      else case lookup s p of
        None \<Rightarrow> Inl ENOENT
      | Some Dir \<Rightarrow> Inl EISDIR
      | Some _ \<Rightarrow> Inr (removeTree p s))"

text \<open>
  \<^verbatim>\<open>rename(2)\<close>: both parent directories are resolved first, then the devices are
  compared, then the source and the destination themselves are looked at. A directory
  replaces only an empty directory, anything else replaces only a non-directory.
\<close>

definition rename :: "path \<Rightarrow> path \<Rightarrow> filesys \<Rightarrow> errno + filesys" where
  "rename src dst s =
     (if src = [] \<or> dst = [] then Inl EBUSY
      else if lookup s (dirname src) = None \<or> lookup s (dirname dst) = None then Inl ENOENT
      else if \<not> isDirectory s (dirname src) \<or> \<not> isDirectory s (dirname dst) then Inl ENOTDIR
      else if deviceOf s src \<noteq> deviceOf s dst then Inl EXDEV
      else case lookup s src of
        None \<Rightarrow> Inl ENOENT
      | Some n \<Rightarrow>
          if src = dst then Inr s
          else if prefix src dst then Inl EINVAL
          else (case lookup s dst of
              None \<Rightarrow> Inr (moveTree src dst s)
            | Some Dir \<Rightarrow>
                if n \<noteq> Dir then Inl EISDIR
                else if hasChildren s dst then Inl ENOTEMPTY
                else Inr (moveTree src dst s)
            | Some _ \<Rightarrow>
                if n = Dir then Inl ENOTDIR else Inr (moveTree src dst s)))"

definition writeFile :: "path \<Rightarrow> content \<Rightarrow> filesys \<Rightarrow> errno + filesys" where
  "writeFile p c s =
     (if lookup s p = Some Dir then Inl EISDIR
      else if lookup s (dirname p) = None then Inl ENOENT
      else if \<not> isDirectory s (dirname p) then Inl ENOTDIR
      else Inr (put p (File c) s))"

definition readFile :: "path \<Rightarrow> filesys \<Rightarrow> errno + content" where
  "readFile p s =
     (case lookup s p of
        None \<Rightarrow> Inl ENOENT
      | Some (File c) \<Rightarrow> Inr c
      | Some Dir \<Rightarrow> Inl EISDIR
      | Some (Symlink t) \<Rightarrow>
          (case lookup s t of Some (File c) \<Rightarrow> Inr c | Some _ \<Rightarrow> Inl EISDIR | None \<Rightarrow> Inl ENOENT))"

text \<open>
  \<^verbatim>\<open>readdir(p, {withFileTypes: true})\<close>: the names of the entries of \<open>p\<close>, each with the
  node found there.
\<close>

definition readdir :: "path \<Rightarrow> filesys \<Rightarrow> errno + (string \<times> node) list" where
  "readdir p s =
     (case lookup s p of
        None \<Rightarrow> Inl ENOENT
      | Some Dir \<Rightarrow>
          Inr (map (\<lambda>(q, n). (last q, n))
                 (filter (\<lambda>(q, n). q \<noteq> [] \<and> butlast q = p \<and> lookup s q = Some n) (nodes s)))
      | Some _ \<Rightarrow> Inl ENOTDIR)"

text \<open>\<^verbatim>\<open>fs.promises.cp(src, dst, {recursive, force})\<close> and \<^verbatim>\<open>fs.promises.copyFile\<close>.\<close>

definition cp :: "path \<Rightarrow> path \<Rightarrow> filesys \<Rightarrow> errno + filesys" where
  "cp src dst s =
     (if lookup s src = None then Inl ENOENT
      else if dst = [] \<or> prefix src dst then Inl EINVAL
      else if lookup s (dirname dst) = None then Inl ENOENT
      else if \<not> isDirectory s (dirname dst) then Inl ENOTDIR
      else Inr (copyTree src dst s))"

definition fs_copyFile :: "path \<Rightarrow> path \<Rightarrow> filesys \<Rightarrow> errno + filesys" where
  "fs_copyFile src dst s =
     (case lookup s src of
        None \<Rightarrow> Inl ENOENT
      | Some Dir \<Rightarrow> Inl EISDIR
      | Some n \<Rightarrow>
          if dst = [] \<or> lookup s dst = Some Dir then Inl EISDIR
          else if lookup s (dirname dst) = None then Inl ENOENT
          else if \<not> isDirectory s (dirname dst) then Inl ENOTDIR
          else Inr (put dst n s))"

subsection \<open>Asynchronous functions\<close>

text \<open>
  An \<^verbatim>\<open>async\<close> function is a function of the filesystem that returns the filesystem it
  leaves behind together with either the value it resolves to (\<open>Inr\<close>) or the error it
  rejects with (\<open>Inl\<close>). \<open>bind\<close> is \<^verbatim>\<open>await\<close> followed by the rest of the body: a
  rejection skips the rest.
\<close>

type_synonym 'a io = "filesys \<Rightarrow> (error + 'a) \<times> filesys"

definition ret :: "'a \<Rightarrow> 'a io" where
  "ret x = (\<lambda>s. (Inr x, s))"

definition throw :: "error \<Rightarrow> 'a io" where
  "throw e = (\<lambda>s. (Inl e, s))"

definition bind :: "'a io \<Rightarrow> ('a \<Rightarrow> 'b io) \<Rightarrow> 'b io" where
  "bind m f = (\<lambda>s. case m s of (Inl e, s') \<Rightarrow> (Inl e, s') | (Inr a, s') \<Rightarrow> f a s')"

definition reading :: "(filesys \<Rightarrow> errno + 'a) \<Rightarrow> 'a io" where
  "reading r = (\<lambda>s. case r s of Inl e \<Rightarrow> (Inl (IOError e), s) | Inr a \<Rightarrow> (Inr a, s))"

definition writing :: "(filesys \<Rightarrow> errno + filesys) \<Rightarrow> unit io" where
  "writing w = (\<lambda>s. case w s of Inl e \<Rightarrow> (Inl (IOError e), s) | Inr s' \<Rightarrow> (Inr (), s'))"

subsection \<open>The helpers of utils/fs.js\<close>

text \<open>
  Modelled from the spec: \<^verbatim>\<open>utils/fs.js\<close> (\<^verbatim>\<open>pathExists\<close>, \<^verbatim>\<open>ensureDir\<close>,
  \<^verbatim>\<open>ensureFile\<close>, \<^verbatim>\<open>removePath\<close>, \<^verbatim>\<open>copyDir\<close>, \<^verbatim>\<open>copyFile\<close>) is not among the
  sources. \<open>pathExists\<close> is the existence test that the callers follow with
  \<^verbatim>\<open>lstat\<close>, so it does not follow a symbolic link; \<open>ensureDir\<close> creates a directory with
  its missing ancestors and accepts one that exists; \<open>ensureFile\<close> creates the file with
  the given content only if nothing is there; \<open>removePath\<close> deletes a path with everything
  beneath it and accepts a missing one; \<open>copyDir\<close> and \<open>copyFile\<close> are the recursive and
  the single-file copy of the cross-device fallback.
\<close>

definition pathExists :: "path \<Rightarrow> filesys \<Rightarrow> bool" where
  "pathExists p s = (lookup s p \<noteq> None)"

fun mkdirs :: "path list \<Rightarrow> filesys \<Rightarrow> errno + filesys" where
  "mkdirs [] s = Inr s"
| "mkdirs (q # qs) s =
     (case lookup s q of
        None \<Rightarrow> mkdirs qs (put q Dir s)
      | Some Dir \<Rightarrow> mkdirs qs s
      | Some _ \<Rightarrow> Inl (if qs = [] then EEXIST else ENOTDIR))"

definition ensureDir :: "path \<Rightarrow> unit io" where
  "ensureDir p = writing (mkdirs (prefixes p))"

definition ensureFile :: "path \<Rightarrow> string \<Rightarrow> unit io" where
  "ensureFile p text =
     bind (ensureDir (dirname p)) (\<lambda>_ s.
       if pathExists p s then ret () s else writing (writeFile p (Text text)) s)"

definition removePath :: "path \<Rightarrow> unit io" where
  "removePath p = (\<lambda>s. (Inr (), removeTree p s))"

definition copyDir :: "path \<Rightarrow> path \<Rightarrow> bool \<Rightarrow> unit io" where
  "copyDir src dst force =
     (\<lambda>s. if \<not> force \<and> pathExists dst s then ret () s else writing (cp src dst) s)"

definition copyFile :: "path \<Rightarrow> path \<Rightarrow> bool \<Rightarrow> unit io" where
  "copyFile src dst force =
     (\<lambda>s. if \<not> force \<and> pathExists dst s then ret () s else writing (fs_copyFile src dst) s)"

section \<open>backup.ts\<close>

definition MANIFEST_NAME :: string where
  "MANIFEST_NAME = ''manifest.json''"

text \<open>
  \<^verbatim>\<open>backupPathFor\<close>: the root of an absolute POSIX path is \<^verbatim>\<open>/\<close>, the path relative to
  it is the list of its segments, and joining that onto the backup root appends them.
\<close>

definition backupPathFor :: "path \<Rightarrow> path \<Rightarrow> path" where
  "backupPathFor target backupRoot = backupRoot @ target"

text \<open>
  \<^verbatim>\<open>resolved.startsWith(parent + path.sep)\<close>: the segments of \<open>parent\<close> are a proper
  prefix of those of \<open>resolved\<close>. For the root, \<^verbatim>\<open>parent + path.sep\<close> is \<^verbatim>\<open>//\<close>, which
  no resolved path starts with.
\<close>

definition startsWithSep :: "path \<Rightarrow> path \<Rightarrow> bool" where
  "startsWithSep resolved parent = (parent \<noteq> [] \<and> strict_prefix parent resolved)"

definition hasParentPath :: "path \<Rightarrow> path list \<Rightarrow> bool" where
  "hasParentPath target seenSet =
     (let resolved = resolvePath target
      in list_ex (\<lambda>parent. resolved = parent \<or> startsWithSep resolved parent) seenSet)"

definition backupSymlink :: "path \<Rightarrow> path \<Rightarrow> unit io" where
  "backupSymlink target dest =
     bind (reading (readlink target)) (\<lambda>link.
     bind (ensureDir (dirname dest)) (\<lambda>_.
     bind (writing (symlink link dest)) (\<lambda>_.
     writing (unlink target))))"

definition backupPathImpl :: "path \<Rightarrow> path \<Rightarrow> entry_kind \<Rightarrow> unit io" where
  "backupPathImpl target dest kind =
     bind (ensureDir (dirname dest)) (\<lambda>_ s.
       case rename target dest s of
         Inr s' \<Rightarrow> (Inr (), s')
       | Inl err \<Rightarrow>
           if err \<noteq> EXDEV then (Inl (IOError err), s)
           else bind (if kind = KDir then copyDir target dest True else copyFile target dest True)
                  (\<lambda>_. removePath target) s)"

text \<open>
  The clock: \<open>now\<close> is what \<^verbatim>\<open>new Date().toISOString()\<close> returns. A timestamp that is
  absent or empty is replaced by \<open>now\<close> with its colons and dots turned into dashes.
\<close>

definition pathSafe :: "string \<Rightarrow> string" where
  "pathSafe stamp = map (\<lambda>c. if c = CHR '':'' \<or> c = CHR ''.'' then CHR ''-'' else c) stamp"

definition createBackupSession ::
  "string \<Rightarrow> path \<Rightarrow> scope \<Rightarrow> string \<Rightarrow> string option \<Rightarrow> BackupSession io" where
  "createBackupSession now canonicalRoot sc oper timestampOpt =
     (let timestamp = (case timestampOpt of
                         None \<Rightarrow> pathSafe now
                       | Some t \<Rightarrow> if t = [] then pathSafe now else t);
          dir = join (join canonicalRoot ''backup'') timestamp
      in bind (ensureDir dir) (\<lambda>_.
           ret \<lparr>session_dir = dir,
                manifestPath = join dir MANIFEST_NAME,
                session_createdAt = now,
                session_scope = sc,
                session_operation = oper,
                session_entries = [],
                seen = []\<rparr>))"

text \<open>
  \<^verbatim>\<open>backupPath\<close> mutates the session it is given; the model returns the session it leaves
  behind next to the boolean. The session is touched only after every awaited call has
  succeeded, so a rejection leaves it as it was.
\<close>

definition kindOf :: "node \<Rightarrow> entry_kind" where
  "kindOf n = (case n of Symlink _ \<Rightarrow> KSymlink | Dir \<Rightarrow> KDir | File _ \<Rightarrow> KFile)"

definition backupPath :: "path \<Rightarrow> BackupSession \<Rightarrow> (bool \<times> BackupSession) io" where
  "backupPath target session =
     (\<lambda>s. if \<not> pathExists target s then ret (False, session) s
      else let resolved = resolvePath target in
        if hasParentPath resolved (seen session) then ret (False, session) s
        else
          bind (reading (lstat target)) (\<lambda>stat.
            let kind = kindOf stat;
                dest = backupPathFor target (session_dir session)
            in bind (if kind = KSymlink then backupSymlink target dest
                     else backupPathImpl target dest kind) (\<lambda>_.
                 ret (True,
                      session\<lparr>session_entries := session_entries session @
                                 [\<lparr>originalPath = resolved, entry_backupPath = Some dest,
                                   entry_kind = kind, action = ABackup\<rparr>],
                              seen := List.insert resolved (seen session)\<rparr>))) s)"

definition recordCreatedPath :: "path \<Rightarrow> entry_kind \<Rightarrow> BackupSession \<Rightarrow> BackupSession" where
  "recordCreatedPath target kind session =
     (let resolved = resolvePath target in
      if hasParentPath resolved (seen session) then session
      else session\<lparr>session_entries := session_entries session @
                      [\<lparr>originalPath = resolved, entry_backupPath = None,
                        entry_kind = kind, action = ACreate\<rparr>],
                   seen := List.insert resolved (seen session)\<rparr>)"

definition manifestOf :: "BackupSession \<Rightarrow> BackupManifest" where
  "manifestOf session =
     \<lparr>version = 1,
      createdAt = session_createdAt session,
      manifest_scope = session_scope session,
      operation = session_operation session,
      entries = session_entries session\<rparr>"

definition finalizeBackup :: "BackupSession \<Rightarrow> unit io" where
  "finalizeBackup session =
     writing (writeFile (manifestPath session) (ManifestJson (manifestOf session)))"

text \<open>
  \<^verbatim>\<open>loadBackupManifest\<close> resolves to \<^verbatim>\<open>null\<close> (\<open>None\<close>) when there is no manifest file,
  and otherwise to whatever value the file parses to.
\<close>

definition loadBackupManifest :: "path \<Rightarrow> json option io" where
  "loadBackupManifest dir =
     (let mp = join dir MANIFEST_NAME in
      (\<lambda>s. if \<not> pathExists mp s then ret None s
           else bind (reading (readFile mp)) (\<lambda>raw.
                  case JSON_parse raw of
                    Inl err \<Rightarrow> throw err
                  | Inr v \<Rightarrow> ret (Some v)) s))"

section \<open>paths.ts\<close>

text \<open>
  The process environment: what \<^verbatim>\<open>os.homedir()\<close>, \<^verbatim>\<open>process.cwd()\<close> and
  \<^verbatim>\<open>new Date().toISOString()\<close> return, and the collation of the host's locale:
  \<open>localeCompare e a b\<close> is the number that \<^verbatim>\<open>a.localeCompare(b)\<close> returns for two
  strings, negative when \<open>a\<close> sorts before \<open>b\<close>, zero when they sort alike, positive
  otherwise.
\<close>

record env =
  homedir :: path
  cwd :: path
  now :: string
  localeCompare :: "string \<Rightarrow> string \<Rightarrow> int"

datatype client = Claude | Factory | Codex | Cursor | Opencode | Gemini

record RootOptions =
  scope :: scope
  opt_projectRoot :: "path option"
  opt_homeDir :: "path option"

record MappingOptions = RootOptions +
  clients :: "client list option"

record ResolvedRoots =
  canonicalRoot :: path
  claudeRoot :: path
  factoryRoot :: path
  codexRoot :: path
  cursorRoot :: path
  opencodeRoot :: path
  opencodeConfigRoot :: path
  geminiRoot :: path
  projectRoot :: path
  homeDir :: path

definition resolveRoots :: "env \<Rightarrow> 'a RootOptions_scheme \<Rightarrow> ResolvedRoots" where
  "resolveRoots e opts =
     (let home = (case opt_homeDir opts of Some h \<Rightarrow> h | None \<Rightarrow> homedir e);
          proj = resolvePath (case opt_projectRoot opts of Some p \<Rightarrow> p | None \<Rightarrow> cwd e)
      in if scope opts = Global then
           \<lparr>canonicalRoot = join home ''.agents'',
            claudeRoot = join home ''.claude'',
            factoryRoot = join home ''.factory'',
            codexRoot = join home ''.codex'',
            cursorRoot = join home ''.cursor'',
            opencodeRoot = join (join home ''.config'') ''opencode'',
            opencodeConfigRoot = join (join home ''.config'') ''opencode'',
            geminiRoot = join home ''.gemini'',
            projectRoot = proj,
            homeDir = home\<rparr>
         else
           \<lparr>canonicalRoot = join proj ''.agents'',
            claudeRoot = join proj ''.claude'',
            factoryRoot = join proj ''.factory'',
            codexRoot = join proj ''.codex'',
            cursorRoot = join proj ''.cursor'',
            opencodeRoot = join proj ''.opencode'',
            opencodeConfigRoot = join (join home ''.config'') ''opencode'',
            geminiRoot = join proj ''.gemini'',
            projectRoot = proj,
            homeDir = home\<rparr>)"

section \<open>undo.ts\<close>

record Counters =
  restored :: nat
  restoredBackups :: nat
  removedCreated :: nat
  removedSymlinks :: nat

record RestoreResult = Counters +
  backupDir :: path
  undoneDir :: path

definition listBackupDirs :: "path \<Rightarrow> path list io" where
  "listBackupDirs canonRoot =
     (let root = join canonRoot ''backup'' in
      (\<lambda>s. if \<not> pathExists root s then ret [] s
           else bind (reading (readdir root)) (\<lambda>ents.
                  ret (map (\<lambda>(name, n). join root name)
                         (filter (\<lambda>(name, n). n = Dir) ents))) s))"

text \<open>The loop of \<^verbatim>\<open>findLatestBackup\<close> that loads the manifest of each directory.\<close>

fun loadManifests :: "path list \<Rightarrow> (path \<times> ManifestValue) list io" where
  "loadManifests [] = ret []"
| "loadManifests (dir # dirs) =
     bind (loadBackupManifest dir) (\<lambda>manifest.
     bind (loadManifests dirs) (\<lambda>rest.
       ret ((case manifest of Some (JsonTruthy m) \<Rightarrow> [(dir, m)] | _ \<Rightarrow> []) @ rest)))"

text \<open>
  The comparator of the sort, \<^verbatim>\<open>a.manifest.createdAt.localeCompare(b.manifest.createdAt)\<close>.
  The call throws a \<^verbatim>\<open>TypeError\<close> when the \<^verbatim>\<open>createdAt\<close> of \<open>a\<close> is not a string; the
  \<^verbatim>\<open>createdAt\<close> of \<open>b\<close> is converted to a string.
\<close>

definition toString :: "createdAtValue \<Rightarrow> string" where
  "toString v = (case v of StringValue x \<Rightarrow> x | OtherValue x \<Rightarrow> x)"

definition compareCreatedAt ::
  "(string \<Rightarrow> string \<Rightarrow> int) \<Rightarrow> path \<times> ManifestValue \<Rightarrow> path \<times> ManifestValue \<Rightarrow> error + int" where
  "compareCreatedAt collate a b =
     (case value_createdAt (snd a) of
        OtherValue _ \<Rightarrow> Inl TypeError
      | StringValue x \<Rightarrow> Inr (collate x (toString (value_createdAt (snd b)))))"

text \<open>
  \<^verbatim>\<open>Array.prototype.sort\<close> with a comparator. ECMAScript requires the sort to be stable
  and leaves the sequence of the calls of the comparator to the implementation; when one
  of them throws, the sort throws. With a comparator that never throws and orders the
  elements consistently every implementation returns the same array. V8, the engine of
  Node.js, sorts an array of fewer than 64 elements by insertion: it takes the elements
  from the second on, one by one, and calls the comparator with the element taken as
  \<open>a\<close> and an element placed before it as \<open>b\<close>. So does the sort here: \<open>insertSorted\<close> places \<open>x\<close>
  among the elements placed so far, which it is given from the greatest to the least,
  behind the first of them that it does not sort before; on an array of one element the
  comparator is not called.
\<close>

fun insertSorted :: "('a \<Rightarrow> 'a \<Rightarrow> error + int) \<Rightarrow> 'a \<Rightarrow> 'a list \<Rightarrow> error + 'a list" where
  "insertSorted cmp x [] = Inr [x]"
| "insertSorted cmp x (y # ys) =
     (case cmp x y of
        Inl err \<Rightarrow> Inl err
      | Inr v \<Rightarrow>
          if v < 0 then (case insertSorted cmp x ys of
                           Inl err \<Rightarrow> Inl err
                         | Inr zs \<Rightarrow> Inr (y # zs))
          else Inr (x # y # ys))"

fun sortInto :: "('a \<Rightarrow> 'a \<Rightarrow> error + int) \<Rightarrow> 'a list \<Rightarrow> 'a list \<Rightarrow> error + 'a list" where
  "sortInto cmp placed [] = Inr (rev placed)"
| "sortInto cmp placed (x # xs) =
     (case insertSorted cmp x placed of
        Inl err \<Rightarrow> Inl err
      | Inr placed' \<Rightarrow> sortInto cmp placed' xs)"

definition array_sort :: "('a \<Rightarrow> 'a \<Rightarrow> error + int) \<Rightarrow> 'a list \<Rightarrow> error + 'a list" where
  "array_sort cmp xs = sortInto cmp [] xs"

text \<open>
  \<^verbatim>\<open>findLatestBackup\<close>; \<open>collate\<close> is the \<^verbatim>\<open>localeCompare\<close> of the host.
\<close>

definition findLatestBackup ::
  "(string \<Rightarrow> string \<Rightarrow> int) \<Rightarrow> path \<Rightarrow> (path \<times> ManifestValue) option io" where
  "findLatestBackup collate canonRoot =
     bind (listBackupDirs canonRoot) (\<lambda>dirs.
     bind (loadManifests dirs) (\<lambda>manifests.
       if manifests = [] then ret None
       else (case array_sort (compareCreatedAt collate) manifests of
               Inl err \<Rightarrow> throw err
             | Inr ordered \<Rightarrow> ret (Some (last ordered)))))"

definition restoreSymlink :: "BackupEntry \<Rightarrow> unit io" where
  "restoreSymlink entry =
     (case entry_backupPath entry of
        None \<Rightarrow> ret ()
      | Some bp \<Rightarrow>
          bind (reading (readlink bp)) (\<lambda>link.
          bind (ensureDir (dirname (originalPath entry))) (\<lambda>_.
          bind (writing (symlink link (originalPath entry))) (\<lambda>_.
          writing (unlink bp)))))"

definition restorePath :: "BackupEntry \<Rightarrow> unit io" where
  "restorePath entry =
     (if action entry = ACreate then removePath (originalPath entry)
      else case entry_backupPath entry of
        None \<Rightarrow> ret ()
      | Some bp \<Rightarrow>
          if entry_kind entry = KSymlink then restoreSymlink entry
          else
            bind (ensureDir (dirname (originalPath entry))) (\<lambda>_ s.
              case rename bp (originalPath entry) s of
                Inr s' \<Rightarrow> (Inr (), s')
              | Inl err \<Rightarrow>
                  if err \<noteq> EXDEV then (Inl (IOError err), s)
                  else bind (if entry_kind entry = KDir
                             then writing (cp bp (originalPath entry))
                             else writing (fs_copyFile bp (originalPath entry)))
                         (\<lambda>_. removePath bp) s))"

fun backupExistingOriginals :: "BackupEntry list \<Rightarrow> BackupSession \<Rightarrow> BackupSession io" where
  "backupExistingOriginals [] session = ret session"
| "backupExistingOriginals (entry # rest) session =
     (\<lambda>s. if \<not> pathExists (originalPath entry) s then backupExistingOriginals rest session s
          else bind (backupPath (originalPath entry) session)
                 (\<lambda>(moved, session'). backupExistingOriginals rest session') s)"

text \<open>The body of the restore loop of \<^verbatim>\<open>undoLastChange\<close>, for one entry.\<close>

definition undoEntry :: "BackupEntry \<Rightarrow> Counters \<Rightarrow> Counters io" where
  "undoEntry entry c =
     (if action entry = ACreate then
        (\<lambda>s. if pathExists (originalPath entry) s then
               bind (restorePath entry) (\<lambda>_.
                 ret (c\<lparr>restored := restored c + 1,
                        removedCreated := removedCreated c + 1,
                        removedSymlinks := (if entry_kind entry = KSymlink
                                            then removedSymlinks c + 1
                                            else removedSymlinks c)\<rparr>)) s
             else ret c s)
      else case entry_backupPath entry of
        None \<Rightarrow> ret c
      | Some bp \<Rightarrow>
          (\<lambda>s. if \<not> pathExists bp s then ret c s
               else bind (restorePath entry) (\<lambda>_.
                      ret (c\<lparr>restored := restored c + 1,
                             restoredBackups := restoredBackups c + 1\<rparr>)) s))"

fun undoLoop :: "BackupEntry list \<Rightarrow> Counters \<Rightarrow> Counters io" where
  "undoLoop [] c = ret c"
| "undoLoop (entry # rest) c = bind (undoEntry entry c) (\<lambda>c'. undoLoop rest c')"

definition noCounts :: Counters where
  "noCounts = \<lparr>restored = 0, restoredBackups = 0, removedCreated = 0, removedSymlinks = 0\<rparr>"

text \<open>
  \<^verbatim>\<open>latest.manifest.entries || []\<close>, as the list that the two loops run over: \<open>None\<close>
  when the value cannot be iterated, so that the first loop throws a \<^verbatim>\<open>TypeError\<close>.
\<close>

definition entriesOrEmpty :: "ManifestValue \<Rightarrow> BackupEntry list option" where
  "entriesOrEmpty manifest =
     (case value_entries manifest of
        ArrayValue es \<Rightarrow> Some es
      | FalsyValue \<Rightarrow> Some []
      | NotIterable \<Rightarrow> None)"

definition undoLastChange :: "env \<Rightarrow> 'a RootOptions_scheme \<Rightarrow> RestoreResult io" where
  "undoLastChange e opts =
     (let roots = resolveRoots e opts in
      bind (findLatestBackup (localeCompare e) (canonicalRoot roots)) (\<lambda>latest.
        case latest of
          None \<Rightarrow> throw NoBackups
        | Some (dir, manifest) \<Rightarrow>
            bind (createBackupSession (now e) (canonicalRoot roots) (scope opts) ''undo'' None)
              (\<lambda>undoSession.
            case entriesOrEmpty manifest of
              None \<Rightarrow> throw TypeError
            | Some entryList \<Rightarrow>
                bind (backupExistingOriginals entryList undoSession) (\<lambda>undoSession'.
                bind (undoLoop entryList noCounts) (\<lambda>c.
                bind (finalizeBackup undoSession') (\<lambda>_.
                  ret \<lparr>restored = restored c, restoredBackups = restoredBackups c,
                       removedCreated = removedCreated c, removedSymlinks = removedSymlinks c,
                       backupDir = session_dir undoSession', undoneDir = dir\<rparr>))))))"

section \<open>apply.ts\<close>

text \<open>
  Modelled from the spec: \<^verbatim>\<open>types.js\<close> is not among the sources. A link task is one of
  \<^verbatim>\<open>link {source, target, kind, replaceSymlink}\<close>,
  \<^verbatim>\<open>conflict {source, target, kind?, reason}\<close>, \<^verbatim>\<open>noop {source, target}\<close> and
  \<^verbatim>\<open>ensure-source {path, kind}\<close>; a plan holds its tasks, its conflicts and its changes.
\<close>

datatype SourceKind = FileKind | DirKind

datatype LinkTask =
    Link path path SourceKind bool
  | Conflict path path "SourceKind option" string
  | Noop path path
  | EnsureSource path SourceKind

record LinkPlan =
  tasks :: "LinkTask list"
  plan_conflicts :: "LinkTask list"
  plan_changes :: "LinkTask list"

definition DEFAULT_AGENTS :: string where
  "DEFAULT_AGENTS = ''# AGENTS'' @ [CHR 0x0A, CHR 0x0A] @
                    ''Add shared agent instructions here.'' @ [CHR 0x0A]"

fun createSource :: "LinkTask \<Rightarrow> unit io" where
  "createSource (EnsureSource p DirKind) = ensureDir p"
| "createSource (EnsureSource p FileKind) = ensureFile p DEFAULT_AGENTS"
| "createSource _ = ret ()"

text \<open>
  \<^verbatim>\<open>path.resolve(p).split(path.sep)\<close>: an absolute path starts with the separator, so
  the first piece is the empty string; the root splits into two empty strings.
\<close>

definition splitSep :: "path \<Rightarrow> string list" where
  "splitSep p = (if p = [] then [[], []] else [] # p)"

text \<open>
  The loop of \<^verbatim>\<open>commonPath\<close> runs over the indices below \<open>minLen\<close> and breaks at the
  first index whose segment is empty or is not shared by every path.
\<close>

definition commonPath :: "path list \<Rightarrow> path option" where
  "commonPath paths =
     (if paths = [] then None
      else
        let splitPaths = map (\<lambda>p. splitSep (resolvePath p)) paths;
            minLen = Min (set (map length splitPaths));
            shared = map (\<lambda>i. hd splitPaths ! i)
                       (takeWhile (\<lambda>i. hd splitPaths ! i \<noteq> [] \<and>
                                        list_all (\<lambda>parts. parts ! i = hd splitPaths ! i) splitPaths)
                          [0..<minLen])
        in if shared = [] then None
           else if hd shared = [] then Some (tl shared)
           else Some shared)"

fun taskSource :: "LinkTask \<Rightarrow> path" where
  "taskSource (EnsureSource p k) = p"
| "taskSource (Link src tgt k r) = src"
| "taskSource (Conflict src tgt k r) = src"
| "taskSource (Noop src tgt) = src"

definition inferBackupDir :: "string \<Rightarrow> LinkPlan \<Rightarrow> path option" where
  "inferBackupDir stamp plan =
     (let sourceDirs = map (\<lambda>task. dirname (taskSource task)) (tasks plan) in
      case commonPath sourceDirs of
        None \<Rightarrow> None
      | Some root \<Rightarrow> Some (join (join root ''backup'') (pathSafe stamp)))"

definition backupTarget :: "path \<Rightarrow> path \<Rightarrow> bool io" where
  "backupTarget target bdir =
     (\<lambda>s. if \<not> pathExists target s then ret False s
      else bind (reading (lstat target)) (\<lambda>stat.
        if kindOf stat = KSymlink then ret False
        else
          let dest = bdir @ target in
          bind (ensureDir (dirname dest)) (\<lambda>_ s1.
            case rename target dest s1 of
              Inr s' \<Rightarrow> (Inr True, s')
            | Inl err \<Rightarrow>
                if err \<noteq> EXDEV then (Inl (IOError err), s1)
                else bind (if stat = Dir then copyDir target dest True
                           else copyFile target dest True) (\<lambda>_.
                     bind (removePath target) (\<lambda>_. ret True)) s1)) s)"

text \<open>
  The third argument of \<^verbatim>\<open>fs.promises.symlink\<close> (\<^verbatim>\<open>junction\<close> or \<^verbatim>\<open>file\<close>) only has
  an effect on Windows; the link records its text either way.
\<close>

definition createLink :: "path \<Rightarrow> path \<Rightarrow> SourceKind \<Rightarrow> bool \<Rightarrow> path option \<Rightarrow> (bool \<times> bool) io" where
  "createLink src target kind forced bdir =
     (\<lambda>s. if pathExists target s then
             (if \<not> forced then ret (False, False) s
              else
                bind (case bdir of Some d \<Rightarrow> backupTarget target d | None \<Rightarrow> ret False)
                  (\<lambda>backed.
                bind (removePath target) (\<lambda>_.
                bind (ensureDir (dirname target)) (\<lambda>_.
                bind (writing (symlink src target)) (\<lambda>_.
                ret (True, backed))))) s)
           else
             bind (ensureDir (dirname target)) (\<lambda>_.
             bind (writing (symlink src target)) (\<lambda>_.
             ret (True, False))) s)"

record ApplyOptions =
  opt_force :: "bool option"
  opt_backupDir :: "path option"

record ApplyResult =
  applied :: nat
  skipped :: nat
  conflicts :: nat
  apply_backupDir :: "path option"
  backedUp :: nat

text \<open>The body of the loop of \<^verbatim>\<open>applyLinkPlan\<close>, for one task.\<close>

fun applyTask :: "bool \<Rightarrow> path option \<Rightarrow> LinkTask \<Rightarrow> ApplyResult \<Rightarrow> ApplyResult io" where
  "applyTask forced bdir (Conflict src target kind reason) r =
     (let r1 = r\<lparr>conflicts := conflicts r + 1\<rparr> in
      if forced \<and> target \<noteq> src \<and> kind \<noteq> None then
        bind (createLink src target (the kind) True bdir) (\<lambda>(created, backed).
          ret (r1\<lparr>backedUp := (if backed then backedUp r1 + 1 else backedUp r1),
                  applied := applied r1 + 1\<rparr>))
      else ret r1)"
| "applyTask forced bdir (Noop src target) r = ret (r\<lparr>skipped := skipped r + 1\<rparr>)"
| "applyTask forced bdir (EnsureSource p kind) r =
     bind (createSource (EnsureSource p kind)) (\<lambda>_. ret (r\<lparr>applied := applied r + 1\<rparr>))"
| "applyTask forced bdir (Link src target kind replaceSymlink) r =
     (\<lambda>s. let before = pathExists target s in
        bind (createLink src target kind forced bdir) (\<lambda>(created, backed).
          let r1 = r\<lparr>backedUp := (if backed then backedUp r + 1 else backedUp r)\<rparr> in
          if before \<and> \<not> forced then ret (r1\<lparr>skipped := skipped r1 + 1\<rparr>)
          else ret (r1\<lparr>applied := applied r1 + 1\<rparr>)) s)"

fun applyTasks :: "bool \<Rightarrow> path option \<Rightarrow> LinkTask list \<Rightarrow> ApplyResult \<Rightarrow> ApplyResult io" where
  "applyTasks forced bdir [] r = ret r"
| "applyTasks forced bdir (task # rest) r =
     bind (applyTask forced bdir task r) (\<lambda>r'. applyTasks forced bdir rest r')"

definition applyLinkPlan :: "string \<Rightarrow> LinkPlan \<Rightarrow> ApplyOptions option \<Rightarrow> ApplyResult io" where
  "applyLinkPlan stamp plan opts =
     (let forced = (case opts of None \<Rightarrow> False
                    | Some opt \<Rightarrow> (case opt_force opt of None \<Rightarrow> False | Some b \<Rightarrow> b));
          bdir = (if forced then
                    (case (case opts of None \<Rightarrow> None | Some opt \<Rightarrow> opt_backupDir opt) of
                       Some d \<Rightarrow> Some d
                     | None \<Rightarrow> inferBackupDir stamp plan)
                  else None)
      in applyTasks forced bdir (tasks plan)
           \<lparr>applied = 0, skipped = 0, conflicts = 0, apply_backupDir = bdir, backedUp = 0\<rparr>)"

section \<open>mappings.ts\<close>

text \<open>
  Modelled from the spec: the type \<^verbatim>\<open>Mapping\<close> of \<^verbatim>\<open>types.js\<close>,
  \<^verbatim>\<open>{name, source, targets, kind}\<close>.
\<close>

record Mapping =
  mapping_name :: string
  mapping_source :: path
  mapping_targets :: "path list"
  mapping_kind :: SourceKind

text \<open>
  \<^verbatim>\<open>getMappings\<close> awaits nothing but \<open>pathExists\<close>, which never rejects, so it is a
  function of the filesystem it reads. \<^verbatim>\<open>[c ? p : null, ...].filter(Boolean)\<close> keeps the
  paths whose condition holds.
\<close>

definition allClients :: "client list" where
  "allClients = [Claude, Factory, Codex, Cursor, Opencode, Gemini]"

definition getMappings :: "env \<Rightarrow> MappingOptions \<Rightarrow> filesys \<Rightarrow> Mapping list" where
  "getMappings e opts s =
     (let roots = resolveRoots e opts;
          canonical = canonicalRoot roots;
          claudeOverride = join canonical ''CLAUDE.md'';
          geminiOverride = join canonical ''GEMINI.md'';
          agentsFallback = join canonical ''AGENTS.md'';
          claudeSource = (if pathExists claudeOverride s then claudeOverride else agentsFallback);
          geminiSource = (if pathExists geminiOverride s then geminiOverride else agentsFallback);
          has = (\<lambda>c. c \<in> set (case clients opts of None \<Rightarrow> allClients | Some cs \<Rightarrow> cs));
          opencodeSkillsRoot = (if scope opts = Global then opencodeConfigRoot roots
                                else opencodeRoot roots);
          includeAgentFiles = (scope opts = Global);
          agentTargets = List.map_filter (\<lambda>x. x)
            [if has Factory then Some (join (factoryRoot roots) ''AGENTS.md'') else None,
             if has Codex then Some (join (codexRoot roots) ''AGENTS.md'') else None,
             if has Opencode then Some (join (opencodeConfigRoot roots) ''AGENTS.md'') else None]
      in
        (if includeAgentFiles \<and> has Claude then
           [\<lparr>mapping_name = ''claude-md'', mapping_source = claudeSource,
             mapping_targets = [join (claudeRoot roots) ''CLAUDE.md''],
             mapping_kind = FileKind\<rparr>]
         else []) @
        (if includeAgentFiles \<and> has Gemini then
           [\<lparr>mapping_name = ''gemini-md'', mapping_source = geminiSource,
             mapping_targets = [join (geminiRoot roots) ''GEMINI.md''],
             mapping_kind = FileKind\<rparr>]
         else []) @
        (if includeAgentFiles \<and> agentTargets \<noteq> [] then
           [\<lparr>mapping_name = ''agents-md'', mapping_source = agentsFallback,
             mapping_targets = agentTargets, mapping_kind = FileKind\<rparr>]
         else []) @
        [\<lparr>mapping_name = ''commands'', mapping_source = join canonical ''commands'',
          mapping_targets = List.map_filter (\<lambda>x. x)
            [if has Claude then Some (join (claudeRoot roots) ''commands'') else None,
             if has Factory then Some (join (factoryRoot roots) ''commands'') else None,
             if has Codex then Some (join (codexRoot roots) ''prompts'') else None,
             if has Opencode then Some (join (opencodeRoot roots) ''commands'') else None,
             if has Cursor then Some (join (cursorRoot roots) ''commands'') else None,
             if has Gemini then Some (join (geminiRoot roots) ''commands'') else None],
          mapping_kind = DirKind\<rparr>,
         \<lparr>mapping_name = ''hooks'', mapping_source = join canonical ''hooks'',
          mapping_targets = List.map_filter (\<lambda>x. x)
            [if has Claude then Some (join (claudeRoot roots) ''hooks'') else None,
             if has Factory then Some (join (factoryRoot roots) ''hooks'') else None],
          mapping_kind = DirKind\<rparr>,
         \<lparr>mapping_name = ''skills'', mapping_source = join canonical ''skills'',
          mapping_targets = List.map_filter (\<lambda>x. x)
            [if has Claude then Some (join (claudeRoot roots) ''skills'') else None,
             if has Factory then Some (join (factoryRoot roots) ''skills'') else None,
             if has Codex then Some (join (codexRoot roots) ''skills'') else None,
             if has Opencode then Some (join opencodeSkillsRoot ''skills'') else None,
             if has Cursor then Some (join (cursorRoot roots) ''skills'') else None,
             if has Gemini then Some (join (geminiRoot roots) ''skills'') else None],
          mapping_kind = DirKind\<rparr>])"

section \<open>Notions used in the statements\<close>

text \<open>An agent-instructions file: a path whose last segment is one of the three names.\<close>

definition isInstructionsFile :: "path \<Rightarrow> bool" where
  "isInstructionsFile p = (p \<noteq> [] \<and> last p \<in> {''AGENTS.md'', ''CLAUDE.md'', ''GEMINI.md''})"

text \<open>
  \<open>preserved s s'\<close>: every path that exists in \<open>s\<close> still holds the same node in \<open>s'\<close>;
  nothing was deleted or replaced. \<open>keeps m\<close>: the action \<open>m\<close> preserves every filesystem
  it is run on, whether it resolves or rejects.
\<close>

definition preserved :: "filesys \<Rightarrow> filesys \<Rightarrow> bool" where
  "preserved s s' = (\<forall>p n. lookup s p = Some n \<longrightarrow> lookup s' p = Some n)"

definition keeps :: "'a io \<Rightarrow> bool" where
  "keeps m = (\<forall>s. preserved s (snd (m s)))"

fun isConflict :: "LinkTask \<Rightarrow> bool" where
  "isConflict (Conflict src target kind reason) = True"
| "isConflict _ = False"

text \<open>The \<^verbatim>\<open>force\<close> option is unset: no options, no \<^verbatim>\<open>force\<close> key, or \<^verbatim>\<open>force: false\<close>.\<close>

definition forceUnset :: "ApplyOptions option \<Rightarrow> bool" where
  "forceUnset opts = (case opts of None \<Rightarrow> True | Some opt \<Rightarrow> opt_force opt \<noteq> Some True)"

definition startCounts :: "path option \<Rightarrow> ApplyResult" where
  "startCounts bdir =
     \<lparr>applied = 0, skipped = 0, conflicts = 0, apply_backupDir = bdir, backedUp = 0\<rparr>"

text \<open>
  The table of a filesystem after a successful \<open>ensureDir d\<close>: every missing prefix of
  \<open>d\<close> has become a directory, everything else is as before.
\<close>

definition withDirs :: "path \<Rightarrow> (path \<Rightarrow> node option) \<Rightarrow> path \<Rightarrow> node option" where
  "withDirs d f = (\<lambda>q. if prefix q d \<and> f q = None then Some Dir else f q)"

text \<open>
  \<open>movedTo s s' src dst\<close>: in \<open>s'\<close> the subtree that stood at \<open>src\<close> in \<open>s\<close> stands at
  \<open>dst\<close>, node for node; nothing is left at or beneath \<open>src\<close>; and every path outside both
  is as it was, but for the missing directories leading to \<open>dst\<close>, which were created.
\<close>

definition movedTo :: "filesys \<Rightarrow> filesys \<Rightarrow> path \<Rightarrow> path \<Rightarrow> bool" where
  "movedTo s s' src dst =
     ((\<forall>q. lookup s' (dst @ q) = lookup s (src @ q)) \<and>
      (\<forall>q. lookup s' (src @ q) = None) \<and>
      (\<forall>p. \<not> prefix src p \<and> \<not> prefix dst p \<longrightarrow>
           lookup s' p = withDirs (dirname dst) (lookup s) p) \<and>
      mounts s' = mounts s)"

text \<open>
  \<open>canMove s src dst\<close>: what a move of \<open>src\<close> to \<open>dst\<close> needs from the filesystem. The
  source exists under a directory and is not the root; neither path lies beneath the
  other; nothing stands at or beneath the destination; the path leading to the
  destination holds nothing but directories; and a source that is not a directory has
  nothing beneath it.
\<close>

definition canMove :: "filesys \<Rightarrow> path \<Rightarrow> path \<Rightarrow> bool" where
  "canMove s src dst =
     (src \<noteq> [] \<and> dst \<noteq> [] \<and> lookup s src \<noteq> None \<and>
      \<not> prefix src dst \<and> \<not> prefix dst src \<and>
      (\<forall>q. lookup s (dst @ q) = None) \<and>
      (\<forall>q. prefix q (dirname dst) \<longrightarrow> lookup s q = None \<or> lookup s q = Some Dir) \<and>
      isDirectory s (dirname src) \<and>
      (lookup s src \<noteq> Some Dir \<longrightarrow> (\<forall>q. q \<noteq> [] \<longrightarrow> lookup s (src @ q) = None)))"

text \<open>
  The entry that \<^verbatim>\<open>backupPath\<close> records for a target whose node is \<open>n\<close>, and a session
  with one more entry recorded.
\<close>

definition backupEntryFor :: "path \<Rightarrow> path \<Rightarrow> node \<Rightarrow> BackupEntry" where
  "backupEntryFor target dest n =
     \<lparr>originalPath = target, entry_backupPath = Some dest, entry_kind = kindOf n,
      action = ABackup\<rparr>"

definition recorded :: "BackupSession \<Rightarrow> BackupEntry \<Rightarrow> BackupSession" where
  "recorded session entry =
     session\<lparr>session_entries := session_entries session @ [entry],
             seen := List.insert (originalPath entry) (seen session)\<rparr>"

text \<open>
  Two paths are unrelated when neither is the other or lies beneath it; the paths of a
  list are apart when they are pairwise unrelated.
\<close>

definition unrelated :: "path \<Rightarrow> path \<Rightarrow> bool" where
  "unrelated a b = (\<not> prefix a b \<and> \<not> prefix b a)"

fun apart :: "path list \<Rightarrow> bool" where
  "apart [] = True"
| "apart (p # ps) = ((\<forall>q \<in> set ps. unrelated p q) \<and> apart ps)"

text \<open>
  With respect to the session directory \<open>d\<close> whose manifest is being undone: an entry is
  restorable in \<open>t\<close> when its action is \<^verbatim>\<open>backup\<close> and its copy still exists; it is
  mirrored when its original path is not the root, is unrelated to \<open>d\<close>, and its backup
  path is the mirror of the original path under \<open>d\<close>, where \<^verbatim>\<open>backupPath\<close> puts it; it
  is ready in \<open>t\<close> when nothing stands at its original path, the path leading there holds
  nothing but directories, and the copy of a \<^verbatim>\<open>backup\<close> entry, if there, is of the
  recorded kind, lies in a directory and, unless it is a directory, has nothing beneath it. \<open>framed\<close> bounds what
  the restore loop changes elsewhere: outside the original paths and the copies, a path
  keeps its node, or it was missing and has become a directory leading to an original
  path.
\<close>

definition restorable :: "path \<Rightarrow> filesys \<Rightarrow> BackupEntry \<Rightarrow> bool" where
  "restorable d t e = (action e = ABackup \<and> lookup t (d @ originalPath e) \<noteq> None)"

definition mirrored :: "path \<Rightarrow> BackupEntry \<Rightarrow> bool" where
  "mirrored d e =
     (originalPath e \<noteq> [] \<and> unrelated (originalPath e) d \<and>
      (action e = ABackup \<longrightarrow> entry_backupPath e = Some (d @ originalPath e)))"

definition ready :: "path \<Rightarrow> filesys \<Rightarrow> BackupEntry \<Rightarrow> bool" where
  "ready d t e =
     ((\<forall>q. lookup t (originalPath e @ q) = None) \<and>
      (\<forall>q. prefix q (dirname (originalPath e)) \<longrightarrow> lookup t q = None \<or> lookup t q = Some Dir) \<and>
      (action e = ABackup \<longrightarrow>
         (\<forall>n. lookup t (d @ originalPath e) = Some n \<longrightarrow>
             entry_kind e = kindOf n \<and> isDirectory t (dirname (d @ originalPath e)) \<and>
             (n \<noteq> Dir \<longrightarrow> (\<forall>q. q \<noteq> [] \<longrightarrow> lookup t (d @ originalPath e @ q) = None)))))"

definition framed :: "path \<Rightarrow> BackupEntry list \<Rightarrow> filesys \<Rightarrow> filesys \<Rightarrow> bool" where
  "framed d es t t' =
     (\<forall>p. (\<forall>e \<in> set es. \<not> prefix (originalPath e) p \<and> \<not> prefix (d @ originalPath e) p) \<longrightarrow>
          lookup t' p = lookup t p \<or>
          (lookup t p = None \<and> lookup t' p = Some Dir \<and>
           (\<exists>e \<in> set es. prefix p (dirname (originalPath e)))))"

text \<open>
  Before it restores anything, \<^verbatim>\<open>undoLastChange\<close> moves what stands at the original
  paths into its own session, whose directory is \<open>u\<close>. An original path is parked-ready
  in \<open>t\<close> when its mirror under \<open>u\<close> is free, the path leading to the mirror holds nothing
  but directories, what stands at the original path lies in a directory and, unless it is
  a directory, has nothing beneath it, and a missing original path has nothing beneath
  it. \<open>framedPark\<close> bounds what the parking changes elsewhere.
\<close>

definition parked :: "path \<Rightarrow> filesys \<Rightarrow> path \<Rightarrow> bool" where
  "parked u t orig =
     ((\<forall>q. lookup t (u @ orig @ q) = None) \<and>
      (\<forall>q. prefix q (dirname (u @ orig)) \<longrightarrow> lookup t q = None \<or> lookup t q = Some Dir) \<and>
      (\<forall>n. lookup t orig = Some n \<longrightarrow>
           isDirectory t (dirname orig) \<and>
           (n \<noteq> Dir \<longrightarrow> (\<forall>q. q \<noteq> [] \<longrightarrow> lookup t (orig @ q) = None))) \<and>
      (lookup t orig = None \<longrightarrow> (\<forall>q. lookup t (orig @ q) = None)))"

definition framedPark :: "path \<Rightarrow> path list \<Rightarrow> filesys \<Rightarrow> filesys \<Rightarrow> bool" where
  "framedPark u os t t' =
     (\<forall>p. (\<forall>orig \<in> set os. \<not> prefix orig p \<and> \<not> prefix (u @ orig) p) \<longrightarrow>
          lookup t' p = lookup t p \<or>
          (lookup t p = None \<and> lookup t' p = Some Dir \<and>
           (\<exists>orig \<in> set os. prefix p (dirname (u @ orig)))))"

subsection \<open>A home directory used in the examples\<close>

text \<open>
  \<^verbatim>\<open>/home/u\<close> holds a real directory \<^verbatim>\<open>.codex/prompts\<close> with one file, and nothing
  else.
\<close>

definition home0 :: path where
  "home0 = [''home'', ''u'']"

definition fs0 :: filesys where
  "fs0 = \<lparr>nodes = [([''home''], Dir), ([''home'', ''u''], Dir),
                   ([''home'', ''u'', ''.codex''], Dir),
                   ([''home'', ''u'', ''.codex'', ''prompts''], Dir),
                   ([''home'', ''u'', ''.codex'', ''prompts'', ''keep.md''],
                    File (Text ''# keep''))],
          mounts = []\<rparr>"

text \<open>
  Two collations. \<open>characterOrder\<close> compares strings character by character, which is how
  every collation orders the timestamps that \<^verbatim>\<open>toISOString\<close> writes (same length, digits
  between the same punctuation). \<open>dictionaryOrder\<close> compares them with the letters folded
  to lower case first and puts, of two strings that differ in case only, the lower-case
  one first, as the collations of most locales do: \<^verbatim>\<open>a\<close> sorts before \<^verbatim>\<open>B\<close>.
\<close>

definition characterOrder :: "string \<Rightarrow> string \<Rightarrow> int" where
  "characterOrder a b = (if a < b then - 1 else if a = b then 0 else 1)"

definition lowerCase :: "char \<Rightarrow> char" where
  "lowerCase c = (if CHR ''A'' \<le> c \<and> c \<le> CHR ''Z'' then char_of (of_char c + (32 :: nat)) else c)"

definition dictionaryOrder :: "string \<Rightarrow> string \<Rightarrow> int" where
  "dictionaryOrder a b =
     (if map lowerCase a < map lowerCase b then - 1
      else if map lowerCase b < map lowerCase a then 1
      else if a = b then 0
      else if b < a then - 1 else 1)"

definition env0 :: env where
  "env0 = \<lparr>homedir = home0, cwd = [''work'', ''proj''], now = ''2024-05-01T10:00:00.000Z'',
           localeCompare = characterOrder\<rparr>"

definition globalOpts :: MappingOptions where
  "globalOpts = \<lparr>scope = Global, opt_projectRoot = None, opt_homeDir = None, clients = None\<rparr>"

definition projectOpts :: MappingOptions where
  "projectOpts = \<lparr>scope = Project, opt_projectRoot = None, opt_homeDir = None, clients = None\<rparr>"

definition plan0 :: LinkPlan where
  "plan0 = \<lparr>tasks = [EnsureSource [''home'', ''u'', ''.agents'', ''commands''] DirKind,
                     Conflict [''home'', ''u'', ''.agents'', ''commands'']
                              [''home'', ''u'', ''.codex'', ''prompts''] (Some DirKind)
                              ''existing directory'',
                     Link [''home'', ''u'', ''.agents'', ''commands'']
                          [''home'', ''u'', ''.claude'', ''commands''] DirKind False],
            plan_conflicts = [Conflict [''home'', ''u'', ''.agents'', ''commands'']
                                       [''home'', ''u'', ''.codex'', ''prompts''] (Some DirKind)
                                       ''existing directory''],
            plan_changes = [Link [''home'', ''u'', ''.agents'', ''commands'']
                                 [''home'', ''u'', ''.claude'', ''commands''] DirKind False,
                            EnsureSource [''home'', ''u'', ''.agents'', ''commands''] DirKind]\<rparr>"

text \<open>The same home directory with a canonical root that holds a Claude override.\<close>

definition fsOverride :: filesys where
  "fsOverride =
     \<lparr>nodes = [([''home'', ''u'', ''.agents'', ''CLAUDE.md''], File (Text ''# Claude override'')),
               ([''home'', ''u'', ''.agents'', ''AGENTS.md''], File (Text ''# AGENTS'')),
               ([''home'', ''u'', ''.agents''], Dir),
               ([''home''], Dir), ([''home'', ''u''], Dir)],
      mounts = []\<rparr>"

text \<open>\<open>readonly m\<close>: the action \<open>m\<close> leaves every filesystem as it found it.\<close>

definition readonly :: "'a io \<Rightarrow> bool" where
  "readonly m = (\<forall>s. snd (m s) = s)"

text \<open>
  The directory \<open>d\<close> holds a manifest file, and that file parses to a truthy value, of
  which \<open>m\<close> is what can be read; the manifest file of \<open>d\<close> can be read and parsed.
  \<open>backupRoot\<close> is the backup directory of a canonical root. \<open>noBackups\<close>: no directory
  under the backup directory holds a manifest file.
\<close>

definition hasManifest :: "filesys \<Rightarrow> path \<Rightarrow> ManifestValue \<Rightarrow> bool" where
  "hasManifest s d m =
     (pathExists (join d MANIFEST_NAME) s \<and>
      (case readFile (join d MANIFEST_NAME) s of
         Inl _ \<Rightarrow> False
       | Inr raw \<Rightarrow> JSON_parse raw = Inr (JsonTruthy m)))"

definition parses :: "filesys \<Rightarrow> path \<Rightarrow> bool" where
  "parses s d =
     (case readFile (join d MANIFEST_NAME) s of
        Inl _ \<Rightarrow> False
      | Inr raw \<Rightarrow> (case JSON_parse raw of Inl _ \<Rightarrow> False | Inr _ \<Rightarrow> True))"

definition backupRoot :: "path \<Rightarrow> path" where
  "backupRoot canon = join canon ''backup''"

definition noBackups :: "path \<Rightarrow> filesys \<Rightarrow> bool" where
  "noBackups canon s =
     (\<not> pathExists (backupRoot canon) s \<or>
      (isDirectory s (backupRoot canon) \<and>
       (\<forall>name. isDirectory s (join (backupRoot canon) name) \<longrightarrow>
           \<not> pathExists (join (join (backupRoot canon) name) MANIFEST_NAME) s)))"

text \<open>
  A manifest is stamped when its \<^verbatim>\<open>createdAt\<close> is a string, and \<open>stampOf\<close> is that
  string. \<open>stampsUnder b s\<close> are the stamps of the manifests that the directories directly
  under \<open>b\<close> hold in \<open>s\<close>, and \<open>allStamped b s\<close> says that all those manifests are stamped.
  A comparison of strings is a collation on a set of strings when, on that set, a string
  that does not sort before another is not sorted before by it, and sorting no later is
  transitive; it is character ordered on the set when it sorts \<open>a\<close> before \<open>b\<close> exactly
  when \<open>a < b\<close> in the lexicographic order of the characters, and alike exactly when
  they are equal. A timestamp is a string of the form that
  \<^verbatim>\<open>toISOString\<close> writes for the years 0000 to 9999, \<^verbatim>\<open>YYYY-MM-DDTHH:mm:ss.sssZ\<close>; a
  comparison orders timestamps when it is character ordered on them, as a collation is
  (they have the same length and the same punctuation at the same places, so the first
  place where two of them differ holds digits). \<open>timestamped b s\<close> says that the manifests
  that the directories directly under \<open>b\<close> hold in \<open>s\<close> have timestamps as their
  \<^verbatim>\<open>createdAt\<close>.
\<close>

definition stamped :: "ManifestValue \<Rightarrow> bool" where
  "stamped m = (case value_createdAt m of StringValue _ \<Rightarrow> True | OtherValue _ \<Rightarrow> False)"

definition stampOf :: "ManifestValue \<Rightarrow> string" where
  "stampOf m = toString (value_createdAt m)"

definition stampsUnder :: "path \<Rightarrow> filesys \<Rightarrow> string set" where
  "stampsUnder b s =
     {c. \<exists>name m. isDirectory s (join b name) \<and> hasManifest s (join b name) m \<and> c = stampOf m}"

definition allStamped :: "path \<Rightarrow> filesys \<Rightarrow> bool" where
  "allStamped b s =
     (\<forall>name m. isDirectory s (join b name) \<and> hasManifest s (join b name) m \<longrightarrow> stamped m)"

definition collation :: "(string \<Rightarrow> string \<Rightarrow> int) \<Rightarrow> string set \<Rightarrow> bool" where
  "collation collate S =
     ((\<forall>a \<in> S. \<forall>b \<in> S. 0 \<le> collate a b \<longrightarrow> collate b a \<le> 0) \<and>
      (\<forall>a \<in> S. \<forall>b \<in> S. \<forall>c \<in> S. collate a b \<le> 0 \<and> collate b c \<le> 0 \<longrightarrow> collate a c \<le> 0))"

definition characterOrdered :: "(string \<Rightarrow> string \<Rightarrow> int) \<Rightarrow> string set \<Rightarrow> bool" where
  "characterOrdered collate S =
     (\<forall>a \<in> S. \<forall>b \<in> S. (collate a b < 0) = (a < b) \<and> (collate a b = 0) = (a = b))"

definition isoTimestamp :: "string \<Rightarrow> bool" where
  "isoTimestamp c =
     list_all2 (\<lambda>t x. if t = CHR ''d'' then CHR ''0'' \<le> x \<and> x \<le> CHR ''9'' else x = t)
       ''dddd-dd-ddTdd:dd:dd.dddZ'' c"

definition ordersTimestamps :: "(string \<Rightarrow> string \<Rightarrow> int) \<Rightarrow> bool" where
  "ordersTimestamps collate = characterOrdered collate {c. isoTimestamp c}"

definition timestamped :: "path \<Rightarrow> filesys \<Rightarrow> bool" where
  "timestamped b s =
     (\<forall>name m. isDirectory s (join b name) \<and> hasManifest s (join b name) m \<longrightarrow>
        stamped m \<and> isoTimestamp (stampOf m))"

text \<open>
  The contents of the files of a filesystem that parse to a truthy value, as what can be
  read of the values.
\<close>

definition fileManifests :: "filesys \<Rightarrow> ManifestValue list" where
  "fileManifests s =
     concat (map (\<lambda>(p, n). case n of
                    File raw \<Rightarrow> (case JSON_parse raw of Inr (JsonTruthy m) \<Rightarrow> [m] | _ \<Rightarrow> [])
                  | _ \<Rightarrow> []) (nodes s))"

subsection \<open>The home directory after a forced apply\<close>

text \<open>
  A forced apply ran in session \<open>session1\<close>: it moved the real directory
  \<^verbatim>\<open>.codex/prompts\<close> into the backup tree and linked it to the canonical commands
  directory, and it created the link \<^verbatim>\<open>.claude/commands\<close>. The backup directory also
  holds an older session whose directory name sorts last, and a session directory that was
  never finalized.
\<close>

definition agents0 :: path where
  "agents0 = [''home'', ''u'', ''.agents'']"

definition session1 :: path where
  "session1 = agents0 @ [''backup'', ''2024-05-01T09-00-00-000Z'']"

definition sessionOld :: path where
  "sessionOld = agents0 @ [''backup'', ''2024-09-09T09-09-09-999Z'']"

definition sessionOpen :: path where
  "sessionOpen = agents0 @ [''backup'', ''2024-06-01T00-00-00-000Z'']"

definition promptsEntry :: BackupEntry where
  "promptsEntry = \<lparr>originalPath = [''home'', ''u'', ''.codex'', ''prompts''],
                    entry_backupPath = Some (session1 @ [''home'', ''u'', ''.codex'', ''prompts'']),
                    entry_kind = KDir, action = ABackup\<rparr>"

definition claudeEntry :: BackupEntry where
  "claudeEntry = \<lparr>originalPath = [''home'', ''u'', ''.claude'', ''commands''],
                   entry_backupPath = None, entry_kind = KSymlink, action = ACreate\<rparr>"

definition manifest1 :: BackupManifest where
  "manifest1 = \<lparr>version = 1, createdAt = ''2024-05-01T09:00:00.000Z'', manifest_scope = Global,
                 operation = ''apply'', entries = [promptsEntry, claudeEntry]\<rparr>"

definition manifestOld :: BackupManifest where
  "manifestOld = \<lparr>version = 1, createdAt = ''2024-04-01T08:00:00.000Z'', manifest_scope = Global,
                   operation = ''apply'', entries = []\<rparr>"

definition fsApplied :: filesys where
  "fsApplied = \<lparr>nodes =
      [([''home''], Dir), ([''home'', ''u''], Dir),
       (agents0, Dir), (agents0 @ [''commands''], Dir),
       (agents0 @ [''backup''], Dir),
       (sessionOld, Dir),
       (sessionOld @ [''manifest.json''], File (ManifestJson manifestOld)),
       (session1, Dir),
       (session1 @ [''manifest.json''], File (ManifestJson manifest1)),
       (session1 @ [''home''], Dir), (session1 @ [''home'', ''u''], Dir),
       (session1 @ [''home'', ''u'', ''.codex''], Dir),
       (session1 @ [''home'', ''u'', ''.codex'', ''prompts''], Dir),
       (session1 @ [''home'', ''u'', ''.codex'', ''prompts'', ''keep.md''],
        File (Text ''# keep'')),
       (sessionOpen, Dir),
       (sessionOpen @ [''home''], Dir),
       ([''home'', ''u'', ''.codex''], Dir),
       ([''home'', ''u'', ''.codex'', ''prompts''], Symlink (agents0 @ [''commands''])),
       ([''home'', ''u'', ''.claude''], Dir),
       ([''home'', ''u'', ''.claude'', ''commands''], Symlink (agents0 @ [''commands'']))],
     mounts = []\<rparr>"

text \<open>
  A backup directory with manifest files that the engine did not write: the manifest of
  \<^verbatim>\<open>backup/x\<close> is created at \<^verbatim>\<open>a\<close>, that of \<^verbatim>\<open>backup/y\<close> at \<^verbatim>\<open>B\<close>, and the manifest
  file of \<^verbatim>\<open>backup/z\<close> holds \<^verbatim>\<open>null\<close>. \<open>envDictionary\<close> is a host with the dictionary
  collation. In \<open>fsEmptyObject\<close> the only manifest file holds \<^verbatim>\<open>{}\<close>, and in \<open>fsNull\<close> it
  holds \<^verbatim>\<open>null\<close>.
\<close>

definition manifestA :: ManifestValue where
  "manifestA = \<lparr>value_createdAt = StringValue ''a'', value_entries = ArrayValue []\<rparr>"

definition manifestB :: ManifestValue where
  "manifestB = \<lparr>value_createdAt = StringValue ''B'', value_entries = ArrayValue []\<rparr>"

definition fsHandWritten :: filesys where
  "fsHandWritten = \<lparr>nodes =
      [([''home''], Dir), ([''home'', ''u''], Dir),
       (agents0, Dir), (agents0 @ [''backup''], Dir),
       (agents0 @ [''backup'', ''x''], Dir),
       (agents0 @ [''backup'', ''x'', ''manifest.json''], File (JsonText (JsonTruthy manifestA))),
       (agents0 @ [''backup'', ''y''], Dir),
       (agents0 @ [''backup'', ''y'', ''manifest.json''], File (JsonText (JsonTruthy manifestB))),
       (agents0 @ [''backup'', ''z''], Dir),
       (agents0 @ [''backup'', ''z'', ''manifest.json''], File (JsonText JsonFalsy))],
     mounts = []\<rparr>"

definition envDictionary :: env where
  "envDictionary = env0\<lparr>localeCompare := dictionaryOrder\<rparr>"

definition emptyObject :: ManifestValue where
  "emptyObject = \<lparr>value_createdAt = OtherValue ''undefined'', value_entries = FalsyValue\<rparr>"

definition fsEmptyObject :: filesys where
  "fsEmptyObject = \<lparr>nodes =
      [([''home''], Dir), ([''home'', ''u''], Dir),
       (agents0, Dir), (agents0 @ [''backup''], Dir),
       (agents0 @ [''backup'', ''x''], Dir),
       (agents0 @ [''backup'', ''x'', ''manifest.json''], File (JsonText (JsonTruthy emptyObject)))],
     mounts = []\<rparr>"

definition fsNull :: filesys where
  "fsNull = \<lparr>nodes =
      [([''home''], Dir), ([''home'', ''u''], Dir),
       (agents0, Dir), (agents0 @ [''backup''], Dir),
       (agents0 @ [''backup'', ''x''], Dir),
       (agents0 @ [''backup'', ''x'', ''manifest.json''], File (JsonText JsonFalsy))],
     mounts = []\<rparr>"

text \<open>A canonical root whose only session directory was never finalized.\<close>

definition fsUnfinalized :: filesys where
  "fsUnfinalized = \<lparr>nodes =
      [([''home''], Dir), ([''home'', ''u''], Dir),
       (agents0, Dir), (agents0 @ [''backup''], Dir),
       (sessionOpen, Dir), (sessionOpen @ [''home''], Dir)],
     mounts = []\<rparr>"

text \<open>
  A session of the home directory that has recorded nothing yet, and the same home
  directory with the canonical root on a device of its own.
\<close>

definition sessionT :: BackupSession where
  "sessionT = \<lparr>session_dir = agents0 @ [''backup'', ''T''],
               manifestPath = agents0 @ [''backup'', ''T'', ''manifest.json''],
               session_createdAt = ''2024-05-01T09:00:00.000Z'',
               session_scope = Global, session_operation = ''apply'',
               session_entries = [], seen = []\<rparr>"

definition fsTwoDevices :: filesys where
  "fsTwoDevices = fs0\<lparr>mounts := [agents0]\<rparr>"

text \<open>
  A home directory whose \<^verbatim>\<open>.claude/commands\<close> is a symbolic link to an old place, the
  plan that relinks it, and the options of a forced apply with and without a backup
  directory.
\<close>

definition staleTarget :: path where
  "staleTarget = [''home'', ''u'', ''.claude'', ''commands'']"

definition fsStale :: filesys where
  "fsStale = \<lparr>nodes = [([''home''], Dir), ([''home'', ''u''], Dir),
                      (agents0, Dir), (agents0 @ [''commands''], Dir),
                      ([''home'', ''u'', ''.claude''], Dir),
                      (staleTarget, Symlink [''home'', ''u'', ''old-commands''])],
             mounts = []\<rparr>"

definition planRelink :: LinkPlan where
  "planRelink = \<lparr>tasks = [Link (agents0 @ [''commands'']) staleTarget DirKind True],
                 plan_conflicts = [],
                 plan_changes = [Link (agents0 @ [''commands'']) staleTarget DirKind True]\<rparr>"

definition forceInto :: "path \<Rightarrow> ApplyOptions option" where
  "forceInto bdir = Some \<lparr>opt_force = Some True, opt_backupDir = Some bdir\<rparr>"

definition forceOnly :: "ApplyOptions option" where
  "forceOnly = Some \<lparr>opt_force = Some True, opt_backupDir = None\<rparr>"

subsection \<open>What undoLastChange needs of a manifest\<close>

text \<open>
  A filesystem is well formed when every path that exists, other than the root, lies in a
  directory. \<open>undoDir\<close> is the directory of the session that \<^verbatim>\<open>undoLastChange\<close> opens for
  itself. An entry of the manifest found in the session directory \<open>d\<close> is undoable in \<open>s\<close>,
  where \<open>b\<close> is the backup directory of the canonical root, when its original path is
  unrelated to \<open>b\<close>, does not start with the name of the manifest, is led to by
  nothing but directories, and, for a \<^verbatim>\<open>backup\<close> entry, its backup path is the mirror of
  its original path under \<open>d\<close>, as \<^verbatim>\<open>backupPath\<close> records it, and its copy, if there, is
  of the recorded kind.
\<close>

definition wellFormed :: "filesys \<Rightarrow> bool" where
  "wellFormed s = (\<forall>p. p \<noteq> [] \<and> lookup s p \<noteq> None \<longrightarrow> lookup s (dirname p) = Some Dir)"

definition undoDir :: "env \<Rightarrow> 'a RootOptions_scheme \<Rightarrow> path" where
  "undoDir e opts = join (backupRoot (canonicalRoot (resolveRoots e opts))) (pathSafe (now e))"

definition undoableEntry :: "path \<Rightarrow> path \<Rightarrow> filesys \<Rightarrow> BackupEntry \<Rightarrow> bool" where
  "undoableEntry b d s en =
     (unrelated (originalPath en) b \<and> \<not> prefix [MANIFEST_NAME] (originalPath en) \<and>
      (\<forall>q. prefix q (dirname (originalPath en)) \<longrightarrow> lookup s q = None \<or> lookup s q = Some Dir) \<and>
      (action en = ABackup \<longrightarrow>
         entry_backupPath en = Some (d @ originalPath en) \<and>
         (\<forall>n. lookup s (d @ originalPath en) = Some n \<longrightarrow> entry_kind en = kindOf n)))"

subsection \<open>An operation that backs up a directory after creating a file in it\<close>

text \<open>
  In \<open>fsBefore\<close> the directory \<^verbatim>\<open>~/.claude/commands\<close> holds one file. The operation opens
  a session, records \<^verbatim>\<open>new.md\<close> in that directory as a created path, writes it, backs
  the directory up and finalizes the session; \<open>manifestNested\<close> is the manifest that it
  writes.
\<close>

definition commands0 :: path where
  "commands0 = [''home'', ''u'', ''.claude'', ''commands'']"

definition fsBefore :: filesys where
  "fsBefore = \<lparr>nodes = [([''home''], Dir), ([''home'', ''u''], Dir), (agents0, Dir),
                        ([''home'', ''u'', ''.claude''], Dir), (commands0, Dir),
                        (commands0 @ [''old.md''], File (Text ''# old''))],
               mounts = []\<rparr>"

definition nestedOperation :: "BackupSession io" where
  "nestedOperation =
     bind (createBackupSession ''2024-05-01T09:00:00.000Z'' agents0 Global ''migrate'' None)
       (\<lambda>session.
     bind (writing (writeFile (commands0 @ [''new.md'']) (Text ''# new''))) (\<lambda>_.
     bind (backupPath commands0 (recordCreatedPath (commands0 @ [''new.md'']) KFile session))
       (\<lambda>(moved, session').
     bind (finalizeBackup session') (\<lambda>_. ret session'))))"

definition manifestNested :: BackupManifest where
  "manifestNested =
     \<lparr>version = 1, createdAt = ''2024-05-01T09:00:00.000Z'', manifest_scope = Global,
      operation = ''migrate'',
      entries = [\<lparr>originalPath = commands0 @ [''new.md''], entry_backupPath = None,
                  entry_kind = KFile, action = ACreate\<rparr>,
                 \<lparr>originalPath = commands0, entry_backupPath = Some (session1 @ commands0),
                  entry_kind = KDir, action = ABackup\<rparr>]\<rparr>"

section \<open>Facts about the filesystem\<close>

lemma lookup_root [simp]: "lookup s [] = Some Dir"
  by (simp add: lookup_def)

lemma map_of_filter_neq:
  "map_of (filter (\<lambda>(q, _). q \<noteq> p) xs) q = (if q = p then None else map_of xs q)"
  by (induction xs) auto

lemma lookup_put:
  "lookup (put p n s) q = (if q = [] then Some Dir else if q = p then Some n else lookup s q)"
  by (simp add: lookup_def put_def map_of_filter_neq)

lemma map_of_filter_prefix:
  "map_of (filter (\<lambda>(q, _). \<not> prefix p q) xs) q = (if prefix p q then None else map_of xs q)"
  by (induction xs) auto

lemma lookup_removeTree:
  "lookup (removeTree p s) q =
     (if q = [] then Some Dir else if prefix p q then None else lookup s q)"
  by (simp add: lookup_def removeTree_def map_of_filter_prefix)

subsection \<open>Actions that delete and replace nothing\<close>

lemma preserved_refl [simp]: "preserved s s"
  by (simp add: preserved_def)

lemma preserved_trans: "preserved s s1 \<Longrightarrow> preserved s1 s2 \<Longrightarrow> preserved s s2"
  by (simp add: preserved_def)

lemma preserved_put: "lookup s p = None \<Longrightarrow> preserved s (put p n s)"
  by (auto simp: preserved_def lookup_put)

lemma mkdirs_preserved: "mkdirs qs s = Inr s' \<Longrightarrow> preserved s s'"
proof (induction qs arbitrary: s)
  case Nil
  then show ?case by simp
next
  case (Cons q qs)
  show ?case
  proof (cases "lookup s q")
    case None
    with Cons.prems have "mkdirs qs (put q Dir s) = Inr s'" by simp
    from Cons.IH[OF this] preserved_put[OF None] show ?thesis
      by (blast intro: preserved_trans)
  next
    case (Some n)
    with Cons show ?thesis by (cases n) (auto split: if_splits)
  qed
qed

lemma keepsD: "keeps m \<Longrightarrow> preserved s (snd (m s))"
  by (simp add: keeps_def)

lemma keeps_ret [simp]: "keeps (ret x)"
  by (simp add: keeps_def ret_def)

lemma keeps_throw [simp]: "keeps (throw e)"
  by (simp add: keeps_def throw_def)

lemma keeps_bind: "keeps m \<Longrightarrow> (\<And>a. keeps (f a)) \<Longrightarrow> keeps (bind m f)"
  unfolding keeps_def bind_def
proof (intro allI)
  fix s
  assume m: "\<forall>s. preserved s (snd (m s))" and f: "\<And>a. \<forall>s. preserved s (snd (f a s))"
  obtain r s1 where ms: "m s = (r, s1)" by (cases "m s")
  from m ms have p1: "preserved s s1" by (metis snd_conv)
  show "preserved s (snd (case m s of (Inl e, s') \<Rightarrow> (Inl e, s') | (Inr a, s') \<Rightarrow> f a s'))"
  proof (cases r)
    case (Inl e)
    with ms p1 show ?thesis by simp
  next
    case (Inr a)
    with ms p1 f[of a] show ?thesis by (auto intro: preserved_trans)
  qed
qed

lemma keeps_ensureDir: "keeps (ensureDir p)"
  by (auto simp: keeps_def ensureDir_def writing_def split: sum.splits dest: mkdirs_preserved)

lemma keeps_ensureFile: "keeps (ensureFile p txt)"
proof -
  have "preserved s (snd (if pathExists p s then ret () s
                          else writing (writeFile p (Text txt)) s))" for s
    by (auto simp: writing_def writeFile_def pathExists_def preserved_put ret_def
             split: sum.splits)
  then have "keeps (\<lambda>s. if pathExists p s then ret () s
                        else writing (writeFile p (Text txt)) s)"
    by (simp add: keeps_def)
  then show ?thesis
    unfolding ensureFile_def by (intro keeps_bind keeps_ensureDir)
qed

lemma keeps_symlink: "keeps (writing (symlink src p))"
  by (auto simp: keeps_def writing_def symlink_def preserved_put split: sum.splits)

subsection \<open>Actions that only read\<close>

lemma readonlyD: "readonly m \<Longrightarrow> m s = (r, s') \<Longrightarrow> s' = s"
  by (metis readonly_def snd_conv)

lemma readonly_ret [simp]: "readonly (ret x)"
  by (simp add: readonly_def ret_def)

lemma readonly_throw [simp]: "readonly (throw e)"
  by (simp add: readonly_def throw_def)

lemma readonly_reading [simp]: "readonly (reading r)"
  by (simp add: readonly_def reading_def split: sum.splits)

lemma readonly_bind: "readonly m \<Longrightarrow> (\<And>a. readonly (f a)) \<Longrightarrow> readonly (bind m f)"
  by (auto simp: readonly_def bind_def split: prod.splits sum.splits) (metis snd_conv)+

lemma readonly_loadBackupManifest: "readonly (loadBackupManifest dir)"
proof -
  have "readonly (bind (reading (readFile p))
                   (\<lambda>raw. case JSON_parse raw of Inl err \<Rightarrow> throw err | Inr v \<Rightarrow> ret (Some v)))" for p
    by (intro readonly_bind) (auto split: sum.splits)
  then show ?thesis
    by (auto simp: loadBackupManifest_def Let_def readonly_def ret_def)
qed

lemma readonly_loadManifests: "readonly (loadManifests dirs)"
  by (induction dirs) (auto intro!: readonly_bind readonly_loadBackupManifest)

lemma readonly_listBackupDirs: "readonly (listBackupDirs canon)"
proof -
  have "readonly (bind (reading (readdir p)) f)" if "\<And>a. readonly (f a)" for p and f :: "(string \<times> node) list \<Rightarrow> path list io"
    using that by (intro readonly_bind) auto
  then show ?thesis
    by (auto simp: listBackupDirs_def Let_def readonly_def ret_def)
qed

lemma readonly_findLatestBackup: "readonly (findLatestBackup collate canon)"
  unfolding findLatestBackup_def
  by (intro readonly_bind readonly_listBackupDirs readonly_loadManifests) (auto split: sum.splits)

subsection \<open>Moving, copying and creating directories\<close>

lemma rekey_under:
  "prefix src k \<Longrightarrow> prefix dst q \<Longrightarrow> (q = rekey src dst k) = (src @ drop (length dst) q = k)"
  by (auto simp: rekey_def prefix_def)

lemma rekey_outside: "prefix src k \<Longrightarrow> \<not> prefix dst q \<Longrightarrow> q \<noteq> rekey src dst k"
  by (auto simp: rekey_def prefix_def)

lemma rekey_other: "\<not> prefix src k \<Longrightarrow> rekey src dst k = k"
  by (simp add: rekey_def)

lemma not_prefix_neq_append: "\<not> prefix src k \<Longrightarrow> k \<noteq> src @ r \<and> src @ r \<noteq> k"
  by (auto simp: prefix_def)

lemma map_of_moveTree:
  "map_of (map (\<lambda>(q, n). (rekey src dst q, n))
            (filter (\<lambda>(q, _). prefix src q \<or> \<not> prefix dst q) xs)) q =
     (if prefix dst q then map_of xs (src @ drop (length dst) q)
      else if prefix src q then None else map_of xs q)"
proof (induction xs)
  case Nil
  then show ?case by simp
next
  case (Cons kn xs)
  obtain k n where kn: "kn = (k, n)" by (cases kn)
  show ?case
  proof (cases "prefix src k")
    case True
    show ?thesis
    proof (cases "prefix dst q")
      case d: True
      with True Cons.IH show ?thesis
        by (simp add: kn rekey_under)
    next
      case d: False
      from True have "k \<noteq> q" if "\<not> prefix src q" using that by auto
      with True d Cons.IH show ?thesis
        by (simp add: kn rekey_outside)
    qed
  next
    case False
    note nsrc = not_prefix_neq_append[OF False]
    show ?thesis
    proof (cases "prefix dst k")
      case True
      then have "k \<noteq> q" if "\<not> prefix dst q" using that by auto
      with True False Cons.IH nsrc show ?thesis
        by (simp add: kn)
    next
      case d: False
      then have "k \<noteq> q" if "prefix dst q" using that by auto
      moreover from False have "k \<noteq> q" if "prefix src q" using that by auto
      ultimately show ?thesis using False d Cons.IH nsrc
        by (simp add: kn rekey_other)
    qed
  qed
qed

lemma lookup_moveTree:
  assumes "src \<noteq> []" "dst \<noteq> []"
  shows "lookup (moveTree src dst s) q =
     (if prefix dst q then lookup s (src @ drop (length dst) q)
      else if prefix src q then None else lookup s q)"
  using assms by (auto simp: lookup_def moveTree_def map_of_moveTree)

lemma map_of_rekeyed:
  "map_of (map (\<lambda>(q, n). (rekey src dst q, n)) (filter (\<lambda>(q, _). prefix src q) xs)) q =
     (if prefix dst q then map_of xs (src @ drop (length dst) q) else None)"
proof (induction xs)
  case Nil
  then show ?case by simp
next
  case (Cons kn xs)
  obtain k n where kn: "kn = (k, n)" by (cases kn)
  show ?case
  proof (cases "prefix src k")
    case True
    with Cons.IH show ?thesis
      by (cases "prefix dst q") (simp_all add: kn rekey_under rekey_outside)
  next
    case False
    with Cons.IH not_prefix_neq_append[OF False] show ?thesis
      by (simp add: kn)
  qed
qed

lemma lookup_copyTree:
  assumes "src \<noteq> []" "dst \<noteq> []"
  shows "lookup (copyTree src dst s) q =
     (if prefix dst q then lookup s (src @ drop (length dst) q) else lookup s q)"
  using assms
  by (auto simp: lookup_def copyTree_def map_of_append map_of_rekeyed map_of_filter_prefix
           map_add_def split: option.splits)

lemma mounts_put [simp]: "mounts (put p n s) = mounts s"
  by (simp add: put_def)

lemma mounts_removeTree [simp]: "mounts (removeTree p s) = mounts s"
  by (simp add: removeTree_def)

lemma mounts_moveTree [simp]: "mounts (moveTree a b s) = mounts s"
  by (simp add: moveTree_def)

lemma mounts_copyTree [simp]: "mounts (copyTree a b s) = mounts s"
  by (simp add: copyTree_def)

lemma deviceOf_mounts: "mounts s = mounts t \<Longrightarrow> deviceOf s p = deviceOf t p"
  by (simp add: deviceOf_def)

lemma mkdirs_lookup:
  "mkdirs qs s = Inr s' \<Longrightarrow>
     lookup s' q = (if q \<in> set qs \<and> lookup s q = None then Some Dir else lookup s q)"
proof (induction qs arbitrary: s)
  case Nil
  then show ?case by simp
next
  case (Cons q0 qs)
  show ?case
  proof (cases "lookup s q0")
    case None
    with Cons.prems have "mkdirs qs (put q0 Dir s) = Inr s'" by simp
    from Cons.IH[OF this] None show ?thesis
      by (auto simp: lookup_put split: if_splits)
  next
    case (Some n)
    with Cons.prems have n: "n = Dir" and "mkdirs qs s = Inr s'"
      by (cases n; simp)+
    from Cons.IH[OF this(2)] Some show ?thesis by auto
  qed
qed

lemma mkdirs_mounts: "mkdirs qs s = Inr s' \<Longrightarrow> mounts s' = mounts s"
proof (induction qs arbitrary: s)
  case Nil
  then show ?case by simp
next
  case (Cons q0 qs)
  then show ?case
    by (cases "lookup s q0") (auto split: node.splits)
qed

lemma mkdirs_succeeds:
  "(\<forall>q \<in> set qs. lookup s q = None \<or> lookup s q = Some Dir) \<Longrightarrow> \<exists>s'. mkdirs qs s = Inr s'"
proof (induction qs arbitrary: s)
  case Nil
  then show ?case by simp
next
  case (Cons q0 qs)
  show ?case
  proof (cases "lookup s q0")
    case None
    have "\<forall>q \<in> set qs. lookup (put q0 Dir s) q = None \<or> lookup (put q0 Dir s) q = Some Dir"
      using Cons.prems by (auto simp: lookup_put)
    from Cons.IH[OF this] None show ?thesis by simp
  next
    case (Some n)
    with Cons.prems have "n = Dir" by auto
    with Some Cons.IH[of s] Cons.prems show ?thesis by simp
  qed
qed

lemma ensureDir_result:
  assumes "ensureDir d s = (Inr u, s')"
  shows "lookup s' = withDirs d (lookup s) \<and> mounts s' = mounts s"
proof -
  from assms have m: "mkdirs (prefixes d) s = Inr s'"
    by (auto simp: ensureDir_def writing_def split: sum.splits)
  have "lookup s' q = withDirs d (lookup s) q" for q
    using mkdirs_lookup[OF m, of q] by (simp add: withDirs_def in_set_prefixes)
  with mkdirs_mounts[OF m] show ?thesis by (simp add: fun_eq_iff)
qed

lemma ensureDir_error:
  "ensureDir d s = (Inl e, s') \<Longrightarrow> s' = s"
  by (auto simp: ensureDir_def writing_def split: sum.splits)

lemma ensureDir_succeeds:
  "(\<forall>q. prefix q d \<longrightarrow> lookup s q = None \<or> lookup s q = Some Dir) \<Longrightarrow>
     \<exists>s'. ensureDir d s = (Inr (), s')"
  using mkdirs_succeeds[of "prefixes d" s]
  by (auto simp: ensureDir_def writing_def in_set_prefixes)

subsection \<open>Moving a subtree\<close>

lemma prefix_append_cases:
  "prefix a (b @ q) \<Longrightarrow> prefix a b \<or> prefix b a"
  by (metis prefix_append prefixI)

lemma withDirs_Some: "f q = Some n \<Longrightarrow> withDirs d f q = Some n"
  by (simp add: withDirs_def)

lemma withDirs_other: "\<not> prefix q d \<Longrightarrow> withDirs d f q = f q"
  by (simp add: withDirs_def)

lemma withDirs_dir:
  "(\<forall>q. prefix q d \<longrightarrow> f q = None \<or> f q = Some Dir) \<Longrightarrow> prefix q d \<Longrightarrow> withDirs d f q = Some Dir"
  by (auto simp: withDirs_def)

lemma rename_moves:
  assumes "src \<noteq> []" "dst \<noteq> []" "lookup s src = Some n"
    and "isDirectory s (dirname src)" "isDirectory s (dirname dst)"
    and "deviceOf s src = deviceOf s dst"
    and "lookup s dst = None" "\<not> prefix src dst"
  shows "rename src dst s = Inr (moveTree src dst s)"
proof -
  from assms(7,3) have "src \<noteq> dst" by auto
  with assms show ?thesis
    by (simp add: rename_def isDirectory_def)
qed

lemma rename_exdev:
  assumes "src \<noteq> []" "dst \<noteq> []"
    and "isDirectory s (dirname src)" "isDirectory s (dirname dst)"
    and "deviceOf s src \<noteq> deviceOf s dst"
  shows "rename src dst s = Inl EXDEV"
  using assms by (simp add: rename_def isDirectory_def)


lemma dirname_prefix: "prefix (dirname p) p"
  by (simp add: dirname_def prefixeq_butlast)

lemma not_prefix_dirname: "p \<noteq> [] \<Longrightarrow> \<not> prefix (p @ q) (dirname p)"
proof
  assume ne: "p \<noteq> []" and "prefix (p @ q) (dirname p)"
  then have "length (p @ q) \<le> length (dirname p)" by (rule_tac prefix_length_le)
  then have "length p + length q \<le> length p - 1"
    by (simp only: dirname_def length_butlast length_append)
  moreover from ne have "1 \<le> length p" by (cases p) simp_all
  ultimately show False by linarith
qed

text \<open>What the preparation of a move leaves behind.\<close>

lemma prepared_move:
  assumes c: "canMove s src dst" and e: "ensureDir (dirname dst) s = (Inr (), s1)"
  shows "lookup s1 = withDirs (dirname dst) (lookup s)" "mounts s1 = mounts s"
    "\<And>q. lookup s1 (src @ q) = lookup s (src @ q)"
    "\<And>q. lookup s1 (dst @ q) = None"
    "isDirectory s1 (dirname dst)" "isDirectory s1 (dirname src)"
proof -
  from ensureDir_result[OF e] show l1: "lookup s1 = withDirs (dirname dst) (lookup s)"
    and "mounts s1 = mounts s" by simp_all
  from c have nsd: "\<not> prefix src dst" and dne: "dst \<noteq> []" by (simp_all add: canMove_def)
  show "lookup s1 (src @ q) = lookup s (src @ q)" for q
  proof -
    have "\<not> prefix (src @ q) (dirname dst)"
    proof
      assume "prefix (src @ q) (dirname dst)"
      then have "prefix src dst"
        using dirname_prefix[of dst] by (meson prefix_order.trans prefixI)
      with nsd show False by simp
    qed
    then show ?thesis by (simp add: l1 withDirs_other)
  qed
  show "lookup s1 (dst @ q) = None" for q
    using c not_prefix_dirname[OF dne, of q] by (simp add: l1 withDirs_other canMove_def)
  from c show "isDirectory s1 (dirname dst)"
    by (simp add: l1 isDirectory_def canMove_def withDirs_dir)
  from c show "isDirectory s1 (dirname src)"
    by (simp add: l1 isDirectory_def canMove_def withDirs_Some)
qed

lemma movedTo_moveTree:
  assumes c: "canMove s src dst" and e: "ensureDir (dirname dst) s = (Inr (), s1)"
  shows "movedTo s (moveTree src dst s1) src dst"
proof -
  note p = prepared_move[OF c e]
  from c have ne: "src \<noteq> []" "dst \<noteq> []" and un: "\<not> prefix src dst" "\<not> prefix dst src"
    by (simp_all add: canMove_def)
  have nd: "\<not> prefix dst (src @ q)" for q
    using un prefix_append_cases[of dst src q] by blast
  show ?thesis
    unfolding movedTo_def
  proof (intro conjI allI impI)
    fix q
    show "lookup (moveTree src dst s1) (dst @ q) = lookup s (src @ q)"
      by (simp add: lookup_moveTree[OF ne] p(3))
    show "lookup (moveTree src dst s1) (src @ q) = None"
      by (simp add: lookup_moveTree[OF ne] nd)
  next
    fix p'
    assume "\<not> prefix src p' \<and> \<not> prefix dst p'"
    then show "lookup (moveTree src dst s1) p' = withDirs (dirname dst) (lookup s) p'"
      by (simp add: lookup_moveTree[OF ne] p(1))
  next
    show "mounts (moveTree src dst s1) = mounts s" by (simp add: p(2))
  qed
qed

lemma movedTo_copyTree:
  assumes c: "canMove s src dst" and e: "ensureDir (dirname dst) s = (Inr (), s1)"
  shows "movedTo s (removeTree src (copyTree src dst s1)) src dst"
proof -
  note p = prepared_move[OF c e]
  from c have ne: "src \<noteq> []" "dst \<noteq> []" and un: "\<not> prefix src dst" "\<not> prefix dst src"
    by (simp_all add: canMove_def)
  have ns: "\<not> prefix src (dst @ q)" for q
    using un prefix_append_cases[of src dst q] by blast
  show ?thesis
    unfolding movedTo_def
  proof (intro conjI allI impI)
    fix q
    show "lookup (removeTree src (copyTree src dst s1)) (dst @ q) = lookup s (src @ q)"
      using ne by (simp add: lookup_removeTree lookup_copyTree[OF ne] ns p(3))
    show "lookup (removeTree src (copyTree src dst s1)) (src @ q) = None"
      using ne by (simp add: lookup_removeTree)
  next
    fix p'
    assume "\<not> prefix src p' \<and> \<not> prefix dst p'"
    then show "lookup (removeTree src (copyTree src dst s1)) p' = withDirs (dirname dst) (lookup s) p'"
      by (simp add: lookup_removeTree lookup_copyTree[OF ne] p(1) withDirs_def)
  next
    show "mounts (removeTree src (copyTree src dst s1)) = mounts s" by (simp add: p(2))
  qed
qed

lemma movedTo_put:
  assumes c: "canMove s src dst" and e: "ensureDir (dirname dst) s = (Inr (), s1)"
    and n: "lookup s src = Some n" "n \<noteq> Dir"
  shows "movedTo s (removeTree src (put dst n s1)) src dst"
proof -
  note p = prepared_move[OF c e]
  from c have ne: "src \<noteq> []" "dst \<noteq> []" and un: "\<not> prefix src dst" "\<not> prefix dst src"
    by (simp_all add: canMove_def)
  from c n have leaf: "q \<noteq> [] \<Longrightarrow> lookup s (src @ q) = None" for q
    by (simp add: canMove_def)
  have ns: "\<not> prefix src (dst @ q)" for q
    using un prefix_append_cases[of src dst q] by blast
  show ?thesis
    unfolding movedTo_def
  proof (intro conjI allI impI)
    fix q
    show "lookup (removeTree src (put dst n s1)) (dst @ q) = lookup s (src @ q)"
    proof (cases "q = []")
      case True
      with ne ns[of "[]"] n show ?thesis by (simp add: lookup_removeTree lookup_put)
    next
      case False
      with ne ns[of q] leaf[of q] p(4)[of q] show ?thesis
        by (simp add: lookup_removeTree lookup_put)
    qed
    show "lookup (removeTree src (put dst n s1)) (src @ q) = None"
      using ne by (simp add: lookup_removeTree)
  next
    fix p'
    assume "\<not> prefix src p' \<and> \<not> prefix dst p'"
    then show "lookup (removeTree src (put dst n s1)) p' = withDirs (dirname dst) (lookup s) p'"
      by (auto simp: lookup_removeTree lookup_put p(1) withDirs_def)
  next
    show "mounts (removeTree src (put dst n s1)) = mounts s" by (simp add: p(2))
  qed
qed

subsection \<open>Restoring a backed-up path\<close>

lemma restorePath_moves:
  assumes a: "action entry = ABackup" "entry_backupPath entry = Some bp"
    and c: "canMove s bp (originalPath entry)" and n: "lookup s bp = Some n"
    and k: "entry_kind entry = kindOf n"
  shows "\<exists>s'. restorePath entry s = (Inr (), s') \<and> movedTo s s' bp (originalPath entry)"
proof -
  let ?orig = "originalPath entry"
  from c ensureDir_succeeds[of "dirname ?orig" s] obtain s1 where
    e: "ensureDir (dirname ?orig) s = (Inr (), s1)" by (auto simp: canMove_def)
  note p = prepared_move[OF c e]
  from c have ne: "bp \<noteq> []" "?orig \<noteq> []" and un: "\<not> prefix bp ?orig" "\<not> prefix ?orig bp"
    by (simp_all add: canMove_def)
  then have neq: "bp \<noteq> ?orig" by auto
  from p(3)[of "[]"] n have n1: "lookup s1 bp = Some n" by simp
  from p(4)[of "[]"] have d1: "lookup s1 ?orig = None" by simp
  show ?thesis
  proof (cases "entry_kind entry = KSymlink")
    case True
    with k obtain t where t: "n = Symlink t" by (cases n) (simp_all add: kindOf_def)
    have rl: "readlink bp s = Inr t" using n t by (simp add: readlink_def)
    have sl: "symlink t ?orig s1 = Inr (put ?orig (Symlink t) s1)"
      using d1 p(5) by (simp add: symlink_def isDirectory_def)
    have ul: "unlink bp (put ?orig (Symlink t) s1) = Inr (removeTree bp (put ?orig (Symlink t) s1))"
      using ne neq n1 t by (simp add: unlink_def lookup_put)
    have "restorePath entry s = (Inr (), removeTree bp (put ?orig (Symlink t) s1))"
      using a True
      by (simp add: restorePath_def restoreSymlink_def bind_def reading_def writing_def rl e sl ul)
    with movedTo_put[OF c e n[unfolded t]] t show ?thesis by simp
  next
    case False
    show ?thesis
    proof (cases "deviceOf s1 bp = deviceOf s1 ?orig")
      case True
      from rename_moves[OF ne n1 p(6) p(5) True d1 un(1)]
      have "restorePath entry s = (Inr (), moveTree bp ?orig s1)"
        using a False by (simp add: restorePath_def bind_def e)
      with movedTo_moveTree[OF c e] show ?thesis by simp
    next
      case dev: False
      from rename_exdev[OF ne p(6) p(5) dev]
      have r: "rename bp ?orig s1 = Inl EXDEV" .
      show ?thesis
      proof (cases "entry_kind entry = KDir")
        case True
        have "cp bp ?orig s1 = Inr (copyTree bp ?orig s1)"
          using n1 ne un p(5) by (simp add: cp_def isDirectory_def)
        then have "restorePath entry s = (Inr (), removeTree bp (copyTree bp ?orig s1))"
          using a False True r
          by (simp add: restorePath_def bind_def e writing_def removePath_def)
        with movedTo_copyTree[OF c e] show ?thesis by simp
      next
        case nk: False
        with k have nd: "n \<noteq> Dir" by (auto simp: kindOf_def)
        have "fs_copyFile bp ?orig s1 = Inr (put ?orig n s1)"
          using n1 nd ne d1 p(5) by (cases n) (simp_all add: fs_copyFile_def isDirectory_def)
        then have "restorePath entry s = (Inr (), removeTree bp (put ?orig n s1))"
          using a False nk r
          by (simp add: restorePath_def bind_def e writing_def removePath_def)
        with movedTo_put[OF c e n nd] show ?thesis by simp
      qed
    qed
  qed
qed

subsection \<open>Unrelated paths\<close>

lemma unrelated_sym: "unrelated a b \<Longrightarrow> unrelated b a"
  by (simp add: unrelated_def)

lemma unrelated_extend: "unrelated a b \<Longrightarrow> unrelated (a @ x) (b @ y)"
proof -
  assume u: "unrelated a b"
  have "\<not> prefix (a @ x) (b @ y)"
  proof
    assume "prefix (a @ x) (b @ y)"
    then have "prefix a (b @ y)" by (rule append_prefixD)
    with prefix_append_cases[of a b y] u show False by (auto simp: unrelated_def)
  qed
  moreover have "\<not> prefix (b @ y) (a @ x)"
  proof
    assume "prefix (b @ y) (a @ x)"
    then have "prefix b (a @ x)" by (rule append_prefixD)
    with prefix_append_cases[of b a x] u show False by (auto simp: unrelated_def)
  qed
  ultimately show ?thesis by (simp add: unrelated_def)
qed

lemma unrelated_np: "unrelated a b \<Longrightarrow> \<not> prefix (a @ x) (b @ y)"
  using unrelated_extend[of a b x y] by (simp add: unrelated_def)

lemma unrelated_np0: "unrelated a b \<Longrightarrow> \<not> prefix a (b @ y)"
  using unrelated_np[of a b "[]" y] by simp

lemma not_prefix_dirname_of: "\<not> prefix x p \<Longrightarrow> \<not> prefix x (dirname p)"
  using dirname_prefix[of p] by (meson prefix_order.trans)

lemma unrelated_dirname: "unrelated a b \<Longrightarrow> \<not> prefix (a @ x) (dirname b)"
  using unrelated_np[of a b x "[]"] not_prefix_dirname_of[of "a @ x" b] by simp

subsection \<open>What backupPath does to the filesystem\<close>

lemma backupPathImpl_moves:
  assumes c: "canMove s target dest" and n: "lookup s target = Some n"
    and k: "n = Dir \<longrightarrow> kind = KDir"
  shows "\<exists>s'. backupPathImpl target dest kind s = (Inr (), s') \<and> movedTo s s' target dest"
proof -
  from c ensureDir_succeeds[of "dirname dest" s] obtain s1 where
    e: "ensureDir (dirname dest) s = (Inr (), s1)" by (auto simp: canMove_def)
  note p = prepared_move[OF c e]
  from c have ne: "target \<noteq> []" "dest \<noteq> []" and un: "\<not> prefix target dest"
    by (simp_all add: canMove_def)
  from p(3)[of "[]"] n have n1: "lookup s1 target = Some n" by simp
  from p(4)[of "[]"] have d1: "lookup s1 dest = None" by simp
  show ?thesis
  proof (cases "deviceOf s1 target = deviceOf s1 dest")
    case True
    from rename_moves[OF ne n1 p(6) p(5) True d1 un]
    have "backupPathImpl target dest kind s = (Inr (), moveTree target dest s1)"
      by (simp add: backupPathImpl_def bind_def e)
    with movedTo_moveTree[OF c e] show ?thesis by simp
  next
    case False
    from rename_exdev[OF ne p(6) p(5) False]
    have r: "rename target dest s1 = Inl EXDEV" .
    show ?thesis
    proof (cases "kind = KDir")
      case True
      have "cp target dest s1 = Inr (copyTree target dest s1)"
        using n1 ne un p(5) by (simp add: cp_def isDirectory_def)
      then have "backupPathImpl target dest kind s = (Inr (), removeTree target (copyTree target dest s1))"
        using True r
        by (simp add: backupPathImpl_def bind_def e copyDir_def writing_def removePath_def)
      with movedTo_copyTree[OF c e] show ?thesis by simp
    next
      case False
      with k have nd: "n \<noteq> Dir" by blast
      have "fs_copyFile target dest s1 = Inr (put dest n s1)"
        using n1 nd ne d1 p(5) by (cases n) (simp_all add: fs_copyFile_def isDirectory_def)
      then have "backupPathImpl target dest kind s = (Inr (), removeTree target (put dest n s1))"
        using False r
        by (simp add: backupPathImpl_def bind_def e copyFile_def writing_def removePath_def)
      with movedTo_put[OF c e n nd] show ?thesis by simp
    qed
  qed
qed

lemma backupSymlink_moves:
  assumes c: "canMove s target dest" and n: "lookup s target = Some (Symlink t)"
  shows "\<exists>s'. backupSymlink target dest s = (Inr (), s') \<and> movedTo s s' target dest"
proof -
  from c ensureDir_succeeds[of "dirname dest" s] obtain s1 where
    e: "ensureDir (dirname dest) s = (Inr (), s1)" by (auto simp: canMove_def)
  note p = prepared_move[OF c e]
  from c have ne: "target \<noteq> []" "dest \<noteq> []" and un: "\<not> prefix target dest" "\<not> prefix dest target"
    by (simp_all add: canMove_def)
  then have neq: "target \<noteq> dest" by auto
  from p(3)[of "[]"] n have n1: "lookup s1 target = Some (Symlink t)" by simp
  from p(4)[of "[]"] have d1: "lookup s1 dest = None" by simp
  have rl: "readlink target s = Inr t" using n by (simp add: readlink_def)
  have sl: "symlink t dest s1 = Inr (put dest (Symlink t) s1)"
    using d1 p(5) by (simp add: symlink_def isDirectory_def)
  have ul: "unlink target (put dest (Symlink t) s1) = Inr (removeTree target (put dest (Symlink t) s1))"
    using ne neq n1 by (simp add: unlink_def lookup_put)
  have "backupSymlink target dest s = (Inr (), removeTree target (put dest (Symlink t) s1))"
    by (simp add: backupSymlink_def bind_def reading_def writing_def rl e sl ul)
  with movedTo_put[OF c e n] show ?thesis by simp
qed

lemma hasParentPath_iff:
  "hasParentPath target seenSet \<longleftrightarrow>
     (\<exists>parent \<in> set seenSet. parent = target \<or> (parent \<noteq> [] \<and> strict_prefix parent target))"
  by (auto simp: hasParentPath_def resolvePath_def startsWithSep_def list_ex_iff)

lemma backupPath_noop:
  "\<not> pathExists target s \<or> hasParentPath target (seen session) \<Longrightarrow>
     backupPath target session s = (Inr (False, session), s)"
  by (auto simp: backupPath_def ret_def resolvePath_def Let_def)

lemma backupPath_moves:
  assumes c: "canMove s target (backupPathFor target (session_dir session))"
    and n: "lookup s target = Some n"
    and hp: "\<not> hasParentPath target (seen session)"
  shows "\<exists>s'. backupPath target session s =
                 (Inr (True, recorded session
                               (backupEntryFor target (backupPathFor target (session_dir session)) n)), s') \<and>
              movedTo s s' target (backupPathFor target (session_dir session))"
proof -
  let ?dest = "backupPathFor target (session_dir session)"
  have ex: "pathExists target s" using n by (simp add: pathExists_def)
  have st: "lstat target s = Inr n" using n by (simp add: lstat_def)
  show ?thesis
  proof (cases "kindOf n = KSymlink")
    case True
    then obtain t where t: "n = Symlink t" by (cases n) (simp_all add: kindOf_def)
    from backupSymlink_moves[OF c n[unfolded t]] obtain s' where
      "backupSymlink target ?dest s = (Inr (), s')" "movedTo s s' target ?dest" by blast
    with ex hp st True show ?thesis
      by (auto simp: backupPath_def Let_def bind_def ret_def reading_def resolvePath_def
            recorded_def backupEntryFor_def)
  next
    case False
    have k: "n = Dir \<longrightarrow> kindOf n = KDir" by (simp add: kindOf_def)
    from backupPathImpl_moves[OF c n k] obtain s' where
      "backupPathImpl target ?dest (kindOf n) s = (Inr (), s')" "movedTo s s' target ?dest" by blast
    with ex hp st False show ?thesis
      by (auto simp: backupPath_def Let_def bind_def ret_def reading_def resolvePath_def
            recorded_def backupEntryFor_def)
  qed
qed

lemma backupPath_result:
  assumes "backupPath target session s = (Inr (moved, session'), s')"
  shows "(moved \<longrightarrow> (\<exists>n. lookup s target = Some n \<and> \<not> hasParentPath target (seen session) \<and>
                      session' = recorded session
                        (backupEntryFor target (backupPathFor target (session_dir session)) n))) \<and>
         (\<not> moved \<longrightarrow> session' = session \<and> s' = s \<and>
                      (\<not> pathExists target s \<or> hasParentPath target (seen session)))"
  using assms
  by (auto simp: backupPath_def Let_def bind_def ret_def reading_def resolvePath_def
        recorded_def backupEntryFor_def lstat_def pathExists_def
        split: if_splits sum.splits prod.splits option.splits)

lemma backupPath_root_fails: "backupPath [] session s \<noteq> (Inr (True, session'), s')"
proof -
  have "rename [] dest s1 = Inl EBUSY" for dest s1 by (simp add: rename_def)
  then have "fst (backupPathImpl [] dest kind s0) \<noteq> Inr ()" for dest kind s0
    by (auto simp: backupPathImpl_def bind_def split: sum.splits prod.splits)
  then have "backupPathImpl [] dest kind s0 \<noteq> (Inr (), s1)" for dest kind s0 s1
    by (metis fst_conv)
  then show ?thesis
    by (auto simp: backupPath_def Let_def bind_def ret_def reading_def lstat_def kindOf_def
          split: if_splits sum.splits prod.splits)
qed

section \<open>Conflict safety of applyLinkPlan\<close>

lemma keeps_createLink_unforced: "keeps (createLink src target kind False bdir)"
proof -
  have "keeps (bind (ensureDir (dirname target)) (\<lambda>_.
               bind (writing (symlink src target)) (\<lambda>_. ret (True, False))))"
    by (intro keeps_bind keeps_ensureDir keeps_symlink keeps_ret)
  then show ?thesis
    by (simp add: createLink_def keeps_def ret_def)
qed

lemma keeps_createSource: "keeps (createSource task)"
  by (cases task rule: createSource.cases) (simp_all add: keeps_ensureDir keeps_ensureFile)

lemma keeps_applyTask_unforced: "keeps (applyTask False bdir task r)"
proof (cases task)
  case (Link src target kind rs)
  have "keeps (bind (createLink src target kind False bdir) f)" if "\<And>a. keeps (f a)"
    for f :: "bool \<times> bool \<Rightarrow> ApplyResult io"
    using that by (intro keeps_bind keeps_createLink_unforced)
  then show ?thesis using Link
    by (auto simp: keeps_def Let_def ret_def split: prod.splits)
next
  case (Conflict src target kind reason)
  then show ?thesis by (simp add: Let_def)
next
  case (Noop src target)
  then show ?thesis by simp
next
  case (EnsureSource p kind)
  then show ?thesis by (auto intro!: keeps_bind keeps_createSource)
qed

lemma keeps_applyTasks_unforced: "keeps (applyTasks False bdir ts r)"
  by (induction ts arbitrary: r) (auto intro!: keeps_bind keeps_applyTask_unforced)

lemma applyLinkPlan_unforced:
  "forceUnset opts \<Longrightarrow>
     applyLinkPlan stamp plan opts = applyTasks False None (tasks plan) (startCounts None)"
  by (auto simp: applyLinkPlan_def forceUnset_def startCounts_def split: option.splits)

lemma createLink_unforced_result:
  "createLink src target kind False bdir s = (Inr (c, b), s') \<Longrightarrow> \<not> b"
  by (auto simp: createLink_def ret_def bind_def split: if_splits sum.splits prod.splits)

lemma applyTask_unforced_counts:
  assumes "applyTask False bdir task r s = (Inr r', s')"
  shows "conflicts r' = conflicts r + (if isConflict task then 1 else 0) \<and>
         backedUp r' = backedUp r"
proof (cases task)
  case (Link src target kind rs)
  with assms show ?thesis
    by (auto simp: bind_def ret_def Let_def split: sum.splits prod.splits if_splits
             dest: createLink_unforced_result)
next
  case (Conflict src target kind reason)
  with assms show ?thesis by (auto simp: ret_def Let_def)
next
  case (Noop src target)
  with assms show ?thesis by (auto simp: ret_def)
next
  case (EnsureSource p kind)
  with assms show ?thesis by (auto simp: bind_def ret_def split: sum.splits prod.splits)
qed

lemma applyTasks_unforced_counts:
  "applyTasks False bdir ts r s = (Inr r', s') \<Longrightarrow>
     conflicts r' = conflicts r + length (filter isConflict ts) \<and> backedUp r' = backedUp r"
proof (induction ts arbitrary: r s)
  case Nil
  then show ?case by (simp add: ret_def)
next
  case (Cons task ts)
  from Cons.prems obtain r1 s1 where
    a: "applyTask False bdir task r s = (Inr r1, s1)" and
    b: "applyTasks False bdir ts r1 s1 = (Inr r', s')"
    by (auto simp: bind_def split: sum.splits prod.splits)
  from applyTask_unforced_counts[OF a] Cons.IH[OF b] show ?case by auto
qed

text \<open>
  Claim C2. With the \<^verbatim>\<open>force\<close> option unset or absent, the loop body of
  \<^verbatim>\<open>applyLinkPlan\<close> handles a \<^verbatim>\<open>conflict\<close> task by adding one to the conflicts counter
  and touching nothing; over the whole plan, every path that exists beforehand (so the
  conflicting target and everything beneath it) still holds the same node afterwards,
  whether the run resolves or rejects; and the returned conflicts total is the number of
  conflict tasks of the plan, with nothing backed up.
\<close>

theorem conflict_untouched_without_force:
  assumes "forceUnset opts"
  shows "(\<forall>r s1. applyTask False None (Conflict src target kind reason) r s1 =
                    (Inr (r\<lparr>conflicts := conflicts r + 1\<rparr>), s1)) \<and>
         (\<forall>p n. lookup s p = Some n \<longrightarrow>
                 lookup (snd (applyLinkPlan stamp plan opts s)) p = Some n) \<and>
         (\<forall>res. fst (applyLinkPlan stamp plan opts s) = Inr res \<longrightarrow>
                 conflicts res = length (filter isConflict (tasks plan)) \<and> backedUp res = 0)"
proof (intro conjI allI impI)
  fix r s1
  show "applyTask False None (Conflict src target kind reason) r s1 =
          (Inr (r\<lparr>conflicts := conflicts r + 1\<rparr>), s1)"
    by (simp add: Let_def ret_def)
next
  fix p n
  assume "lookup s p = Some n"
  moreover have "preserved s (snd (applyLinkPlan stamp plan opts s))"
    using keepsD[OF keeps_applyTasks_unforced] applyLinkPlan_unforced[OF assms] by simp
  ultimately show "lookup (snd (applyLinkPlan stamp plan opts s)) p = Some n"
    by (simp add: preserved_def)
next
  fix res
  assume "fst (applyLinkPlan stamp plan opts s) = Inr res"
  then have "applyTasks False None (tasks plan) (startCounts None) s =
               (Inr res, snd (applyLinkPlan stamp plan opts s))"
    using applyLinkPlan_unforced[OF assms, of stamp plan] by (metis prod.collapse)
  from applyTasks_unforced_counts[OF this]
  show "conflicts res = length (filter isConflict (tasks plan))" and "backedUp res = 0"
    by (simp_all add: startCounts_def)
qed

theorem conflict_untouched_without_force_witness:
  "forceUnset None \<and>
   lookup (snd (applyLinkPlan (now env0) plan0 None fs0)) [''home'', ''u'', ''.codex'', ''prompts'']
     = Some Dir \<and>
   lookup (snd (applyLinkPlan (now env0) plan0 None fs0))
     [''home'', ''u'', ''.codex'', ''prompts'', ''keep.md''] = Some (File (Text ''# keep''))"
proof -
  have f: "forceUnset None" by (simp add: forceUnset_def)
  have a: "lookup fs0 [''home'', ''u'', ''.codex'', ''prompts''] = Some Dir"
    by (simp add: lookup_def fs0_def)
  have b: "lookup fs0 [''home'', ''u'', ''.codex'', ''prompts'', ''keep.md'']
             = Some (File (Text ''# keep''))"
    by (simp add: lookup_def fs0_def)
  from conflict_untouched_without_force[OF f, of _ _ _ _ fs0 "now env0" plan0] a b f
  show ?thesis by blast
qed

section \<open>The mapping table\<close>

lemma set_map_filter_id: "set (List.map_filter (\<lambda>x. x) xs) = {y. Some y \<in> set xs}"
  by (induction xs) (auto simp: List.map_filter_def)

text \<open>
  Claim C7. In project scope the table returned by \<^verbatim>\<open>getMappings\<close> consists of exactly
  the three directory mappings \<^verbatim>\<open>commands\<close>, \<^verbatim>\<open>hooks\<close> and \<^verbatim>\<open>skills\<close>, and neither the
  source nor any target of a mapping is an agent-instructions file.
\<close>

theorem project_scope_has_no_instruction_files:
  assumes "scope opts = Project"
  shows "map mapping_name (getMappings e opts s) = [''commands'', ''hooks'', ''skills''] \<and>
         (\<forall>m \<in> set (getMappings e opts s).
            mapping_kind m = DirKind \<and>
            \<not> isInstructionsFile (mapping_source m) \<and>
            (\<forall>t \<in> set (mapping_targets m). \<not> isInstructionsFile t))"
  using assms
  by (auto simp: getMappings_def Let_def isInstructionsFile_def join_def set_map_filter_id
           split: if_splits)

theorem project_scope_has_no_instruction_files_witness:
  "scope projectOpts = Project \<and>
   map mapping_name (getMappings env0 projectOpts fs0) = [''commands'', ''hooks'', ''skills''] \<and>
   list_all (\<lambda>m. \<not> isInstructionsFile (mapping_source m) \<and>
                  list_all (\<lambda>t. \<not> isInstructionsFile t) (mapping_targets m))
     (getMappings env0 projectOpts fs0)"
proof -
  have h: "scope projectOpts = Project" by (simp add: projectOpts_def)
  from project_scope_has_no_instruction_files[OF h, of env0 fs0] h
  show ?thesis by (simp add: list_all_iff)
qed

text \<open>
  Claim C8. Whenever the table holds the Claude instructions mapping, its source is the
  canonical root's \<^verbatim>\<open>CLAUDE.md\<close> exactly when that file exists and the canonical root's
  \<^verbatim>\<open>AGENTS.md\<close> otherwise, and likewise \<^verbatim>\<open>GEMINI.md\<close> for the Gemini mapping. The
  source is a field of the mapping, resolved when the table is built and shared by all its
  targets; in global scope with the client selected the mapping is there. A table built
  after the override has been removed routes the mapping to the shared \<^verbatim>\<open>AGENTS.md\<close>.
\<close>

theorem override_resolution:
  "(\<forall>m \<in> set (getMappings e opts s).
      (mapping_name m = ''claude-md'' \<longrightarrow>
         mapping_source m =
           (if pathExists (join (canonicalRoot (resolveRoots e opts)) ''CLAUDE.md'') s
            then join (canonicalRoot (resolveRoots e opts)) ''CLAUDE.md''
            else join (canonicalRoot (resolveRoots e opts)) ''AGENTS.md'')) \<and>
      (mapping_name m = ''gemini-md'' \<longrightarrow>
         mapping_source m =
           (if pathExists (join (canonicalRoot (resolveRoots e opts)) ''GEMINI.md'') s
            then join (canonicalRoot (resolveRoots e opts)) ''GEMINI.md''
            else join (canonicalRoot (resolveRoots e opts)) ''AGENTS.md''))) \<and>
   (scope opts = Global \<and> clients opts = None \<longrightarrow>
      map mapping_name (getMappings e opts s) =
        [''claude-md'', ''gemini-md'', ''agents-md'', ''commands'', ''hooks'', ''skills'']) \<and>
   (\<forall>m \<in> set (getMappings e opts
                  (removeTree (join (canonicalRoot (resolveRoots e opts)) ''CLAUDE.md'') s)).
      mapping_name m = ''claude-md'' \<longrightarrow>
        mapping_source m = join (canonicalRoot (resolveRoots e opts)) ''AGENTS.md'') \<and>
   (\<forall>m \<in> set (getMappings e opts
                  (removeTree (join (canonicalRoot (resolveRoots e opts)) ''GEMINI.md'') s)).
      mapping_name m = ''gemini-md'' \<longrightarrow>
        mapping_source m = join (canonicalRoot (resolveRoots e opts)) ''AGENTS.md'')"
proof (intro conjI)
  show "\<forall>m \<in> set (getMappings e opts s).
      (mapping_name m = ''claude-md'' \<longrightarrow>
         mapping_source m =
           (if pathExists (join (canonicalRoot (resolveRoots e opts)) ''CLAUDE.md'') s
            then join (canonicalRoot (resolveRoots e opts)) ''CLAUDE.md''
            else join (canonicalRoot (resolveRoots e opts)) ''AGENTS.md'')) \<and>
      (mapping_name m = ''gemini-md'' \<longrightarrow>
         mapping_source m =
           (if pathExists (join (canonicalRoot (resolveRoots e opts)) ''GEMINI.md'') s
            then join (canonicalRoot (resolveRoots e opts)) ''GEMINI.md''
            else join (canonicalRoot (resolveRoots e opts)) ''AGENTS.md''))"
    by (auto simp: getMappings_def Let_def split: if_splits)
next
  show "scope opts = Global \<and> clients opts = None \<longrightarrow>
      map mapping_name (getMappings e opts s) =
        [''claude-md'', ''gemini-md'', ''agents-md'', ''commands'', ''hooks'', ''skills'']"
    by (simp add: getMappings_def Let_def allClients_def List.map_filter_def)
next
  have gone: "\<not> pathExists p (removeTree p s)" if "p \<noteq> []" for p
    using that by (simp add: pathExists_def lookup_removeTree)
  show "\<forall>m \<in> set (getMappings e opts
                  (removeTree (join (canonicalRoot (resolveRoots e opts)) ''CLAUDE.md'') s)).
      mapping_name m = ''claude-md'' \<longrightarrow>
        mapping_source m = join (canonicalRoot (resolveRoots e opts)) ''AGENTS.md''"
    using gone[of "join (canonicalRoot (resolveRoots e opts)) ''CLAUDE.md''"]
    by (auto simp: getMappings_def Let_def join_def split: if_splits)
  show "\<forall>m \<in> set (getMappings e opts
                  (removeTree (join (canonicalRoot (resolveRoots e opts)) ''GEMINI.md'') s)).
      mapping_name m = ''gemini-md'' \<longrightarrow>
        mapping_source m = join (canonicalRoot (resolveRoots e opts)) ''AGENTS.md''"
    using gone[of "join (canonicalRoot (resolveRoots e opts)) ''GEMINI.md''"]
    by (auto simp: getMappings_def Let_def join_def split: if_splits)
qed

theorem override_resolution_witness:
  "mapping_name (hd (getMappings env0 globalOpts fsOverride)) = ''claude-md'' \<and>
   mapping_source (hd (getMappings env0 globalOpts fsOverride))
     = [''home'', ''u'', ''.agents'', ''CLAUDE.md''] \<and>
   mapping_source (hd (getMappings env0 globalOpts
                         (removeTree [''home'', ''u'', ''.agents'', ''CLAUDE.md''] fsOverride)))
     = [''home'', ''u'', ''.agents'', ''AGENTS.md'']"
proof -
  let ?c = "join (canonicalRoot (resolveRoots env0 globalOpts)) ''CLAUDE.md''"
  have c: "?c = [''home'', ''u'', ''.agents'', ''CLAUDE.md'']"
    by (simp add: resolveRoots_def globalOpts_def env0_def home0_def join_def)
  have a: "join (canonicalRoot (resolveRoots env0 globalOpts)) ''AGENTS.md''
             = [''home'', ''u'', ''.agents'', ''AGENTS.md'']"
    by (simp add: resolveRoots_def globalOpts_def env0_def home0_def join_def)
  have ex: "pathExists ?c fsOverride"
    by (simp add: c pathExists_def lookup_def fsOverride_def)
  have g: "scope globalOpts = Global \<and> clients globalOpts = None"
    by (simp add: globalOpts_def)
  have first: "getMappings env0 globalOpts t \<noteq> [] \<and>
               mapping_name (hd (getMappings env0 globalOpts t)) = ''claude-md''" for t
    by (simp add: getMappings_def Let_def globalOpts_def allClients_def)
  then have mem: "hd (getMappings env0 globalOpts t) \<in> set (getMappings env0 globalOpts t)" for t
    by simp
  from override_resolution[of env0 globalOpts fsOverride] first mem ex c a
  show ?thesis by (auto simp del: hd_in_set)
qed

section \<open>Finding the latest backup\<close>

lemma loadBackupManifest_hasManifest:
  assumes "loadBackupManifest d s = (Inr v, s')"
  shows "hasManifest s d m \<longleftrightarrow> v = Some (JsonTruthy m)"
proof (cases "pathExists (join d MANIFEST_NAME) s")
  case False
  with assms show ?thesis
    by (auto simp: loadBackupManifest_def Let_def hasManifest_def ret_def)
next
  case True
  show ?thesis
  proof (cases "readFile (join d MANIFEST_NAME) s")
    case (Inl err)
    with True assms show ?thesis
      by (simp add: loadBackupManifest_def Let_def bind_def reading_def)
  next
    case (Inr raw)
    show ?thesis
    proof (cases "JSON_parse raw")
      case (Inl err)
      with True Inr assms show ?thesis
        by (simp add: loadBackupManifest_def Let_def bind_def reading_def throw_def)
    next
      case r: (Inr w)
      with True Inr assms have "v = Some w"
        by (simp add: loadBackupManifest_def Let_def bind_def reading_def ret_def)
      with True Inr r show ?thesis by (auto simp: hasManifest_def)
    qed
  qed
qed

lemma loadBackupManifest_None:
  "loadBackupManifest d s = (Inr None, s') \<longleftrightarrow> s' = s \<and> \<not> pathExists (join d MANIFEST_NAME) s"
  by (auto simp: loadBackupManifest_def Let_def ret_def bind_def reading_def throw_def
           split: sum.splits)

lemma loadBackupManifest_parses:
  "pathExists (join d MANIFEST_NAME) s \<Longrightarrow> parses s d \<Longrightarrow> \<exists>v. loadBackupManifest d s = (Inr (Some v), s)"
  by (auto simp: loadBackupManifest_def Let_def parses_def ret_def bind_def reading_def
           split: sum.splits)

lemma loadManifests_set:
  "loadManifests dirs s = (Inr ms, s') \<Longrightarrow>
     set ms = {(d, m). d \<in> set dirs \<and> hasManifest s d m}"
proof (induction dirs arbitrary: ms s')
  case Nil
  then show ?case by (simp add: ret_def)
next
  case (Cons d dirs)
  from Cons.prems obtain v s1 rest s2 where
    a: "loadBackupManifest d s = (Inr v, s1)" and
    b: "loadManifests dirs s1 = (Inr rest, s2)" and
    c: "ms = (case v of Some (JsonTruthy m) \<Rightarrow> [(d, m)] | _ \<Rightarrow> []) @ rest"
    by (auto simp: bind_def ret_def split: sum.splits prod.splits)
  have s1: "s1 = s" using readonlyD[OF readonly_loadBackupManifest a] .
  from Cons.IH[OF b[unfolded s1]] have ih: "set rest = {(d, m). d \<in> set dirs \<and> hasManifest s d m}" .
  note hm = loadBackupManifest_hasManifest[OF a]
  have "set (case v of Some (JsonTruthy m) \<Rightarrow> [(d, m)] | _ \<Rightarrow> []) = {(d', m). d' = d \<and> hasManifest s d m}"
    unfolding hm by (auto split: option.splits json.splits)
  with c ih show ?case by auto
qed

lemma readdir_set:
  "readdir p s = Inr ents \<Longrightarrow> set ents = {(name, n). lookup s (p @ [name]) = Some n}"
proof -
  assume a: "readdir p s = Inr ents"
  then have e: "ents = map (\<lambda>(q, n). (last q, n))
                 (filter (\<lambda>(q, n). q \<noteq> [] \<and> butlast q = p \<and> lookup s q = Some n) (nodes s))"
    by (auto simp: readdir_def split: option.splits node.splits)
  show ?thesis
  proof (rule set_eqI, clarify)
    fix name n
    show "(name, n) \<in> set ents \<longleftrightarrow> (name, n) \<in> {(name, n). lookup s (p @ [name]) = Some n}"
    proof
      assume "(name, n) \<in> set ents"
      then obtain q where q: "(q, n) \<in> set (nodes s)" "q \<noteq> []" "butlast q = p" "lookup s q = Some n" "last q = name"
        unfolding e by auto
      then have "q = p @ [name]" by (metis append_butlast_last_id)
      with q show "(name, n) \<in> {(name, n). lookup s (p @ [name]) = Some n}" by simp
    next
      assume "(name, n) \<in> {(name, n). lookup s (p @ [name]) = Some n}"
      then have l: "lookup s (p @ [name]) = Some n" by simp
      then have "(p @ [name], n) \<in> set (nodes s)"
        by (auto simp: lookup_def dest: map_of_SomeD)
      with l show "(name, n) \<in> set ents" unfolding e by force
    qed
  qed
qed

lemma listBackupDirs_set:
  "listBackupDirs canon s = (Inr dirs, s') \<Longrightarrow>
     set dirs = {d. \<exists>name. d = join (join canon ''backup'') name \<and> isDirectory s d \<and> pathExists (join canon ''backup'') s}"
proof -
  assume a: "listBackupDirs canon s = (Inr dirs, s')"
  show ?thesis
  proof (cases "pathExists (join canon ''backup'') s")
    case False
    with a show ?thesis by (auto simp: listBackupDirs_def Let_def ret_def)
  next
    case True
    with a obtain ents where r: "readdir (join canon ''backup'') s = Inr ents"
      and d: "dirs = map (\<lambda>(name, n). join (join canon ''backup'') name) (filter (\<lambda>(name, n). n = Dir) ents)"
      by (auto simp: listBackupDirs_def Let_def ret_def bind_def reading_def split: sum.splits)
    from readdir_set[OF r] True show ?thesis
      unfolding d by (auto simp: join_def isDirectory_def)
  qed
qed

lemma insertSorted_set: "insertSorted cmp x ys = Inr zs \<Longrightarrow> set zs = insert x (set ys)"
proof (induction ys arbitrary: zs)
  case Nil
  then show ?case by auto
next
  case (Cons y ys)
  from Cons.prems obtain v where v: "cmp x y = Inr v" by (cases "cmp x y") simp_all
  show ?case
  proof (cases "v < 0")
    case False
    with v Cons.prems show ?thesis by auto
  next
    case True
    with v Cons.prems obtain ws where w: "insertSorted cmp x ys = Inr ws" and z: "zs = y # ws"
      by (cases "insertSorted cmp x ys") auto
    from Cons.IH[OF w] z show ?thesis by auto
  qed
qed

lemma sortInto_set: "sortInto cmp placed xs = Inr ys \<Longrightarrow> set ys = set placed \<union> set xs"
proof (induction xs arbitrary: placed)
  case Nil
  then show ?case by auto
next
  case (Cons x xs)
  then obtain p where p: "insertSorted cmp x placed = Inr p" and r: "sortInto cmp p xs = Inr ys"
    by (cases "insertSorted cmp x placed") auto
  from Cons.IH[OF r] insertSorted_set[OF p] show ?case by auto
qed

lemma array_sort_set: "array_sort cmp xs = Inr ys \<Longrightarrow> set ys = set xs"
  using sortInto_set[of cmp "[]" xs ys] by (simp add: array_sort_def)

text \<open>
  With a comparator that never throws and orders the elements consistently, the sort
  returns the elements in ascending order. The elements placed so far are kept in
  descending order.
\<close>

lemma insertSorted_sorted:
  assumes c: "\<forall>y \<in> set ys. cmp x y = Inr (f x y)"
    and sc: "\<forall>y \<in> set ys. 0 \<le> f x y \<longrightarrow> f y x \<le> 0"
    and tr: "\<forall>a \<in> insert x (set ys). \<forall>b \<in> insert x (set ys). \<forall>c \<in> insert x (set ys).
               f a b \<le> 0 \<and> f b c \<le> 0 \<longrightarrow> f a c \<le> 0"
    and so: "sorted_wrt (\<lambda>a b. f b a \<le> 0) ys"
  shows "\<exists>zs. insertSorted cmp x ys = Inr zs \<and> sorted_wrt (\<lambda>a b. f b a \<le> (0::int)) zs"
  using assms
proof (induction ys)
  case Nil
  show ?case by (rule exI[of _ "[x]"]) simp
next
  case (Cons y ys)
  from Cons.prems(1) have cy: "cmp x y = Inr (f x y)" by simp
  from Cons.prems(4) have zy: "\<forall>z \<in> set ys. f z y \<le> 0" and so': "sorted_wrt (\<lambda>a b. f b a \<le> 0) ys"
    by simp_all
  show ?case
  proof (cases "f x y < 0")
    case False
    with Cons.prems(2) have yx: "f y x \<le> 0" by simp
    have "f z x \<le> 0" if "z \<in> set ys" for z
    proof -
      from zy that have "f z y \<le> 0" by simp
      moreover have "x \<in> insert x (set (y # ys))" "y \<in> insert x (set (y # ys))"
        "z \<in> insert x (set (y # ys))" using that by simp_all
      ultimately show ?thesis using yx Cons.prems(3) by blast
    qed
    then have "sorted_wrt (\<lambda>a b. f b a \<le> 0) (x # y # ys)"
      using yx zy so' by simp
    moreover have "insertSorted cmp x (y # ys) = Inr (x # y # ys)" using cy False by simp
    ultimately show ?thesis by blast
  next
    case True
    have c': "\<forall>y \<in> set ys. cmp x y = Inr (f x y)" using Cons.prems(1) by simp
    have sc': "\<forall>y \<in> set ys. 0 \<le> f x y \<longrightarrow> f y x \<le> 0" using Cons.prems(2) by simp
    have tr': "\<forall>a \<in> insert x (set ys). \<forall>b \<in> insert x (set ys). \<forall>c \<in> insert x (set ys).
               f a b \<le> 0 \<and> f b c \<le> 0 \<longrightarrow> f a c \<le> 0"
    proof (intro ballI impI)
      fix a b c
      assume "a \<in> insert x (set ys)" "b \<in> insert x (set ys)" "c \<in> insert x (set ys)"
        "f a b \<le> 0 \<and> f b c \<le> 0"
      moreover then have "a \<in> insert x (set (y # ys))" "b \<in> insert x (set (y # ys))"
        "c \<in> insert x (set (y # ys))" by auto
      ultimately show "f a c \<le> 0" using Cons.prems(3) by blast
    qed
    from Cons.IH[OF c' sc' tr' so'] obtain zs where
      z: "insertSorted cmp x ys = Inr zs" and s: "sorted_wrt (\<lambda>a b. f b a \<le> 0) zs"
      by blast
    from True have xy: "f x y \<le> 0" by simp
    have "f z y \<le> 0" if "z \<in> set zs" for z
      using that insertSorted_set[OF z] xy zy by auto
    then have "sorted_wrt (\<lambda>a b. f b a \<le> 0) (y # zs)" using s by simp
    moreover have "insertSorted cmp x (y # ys) = Inr (y # zs)" using cy True z by simp
    ultimately show ?thesis by blast
  qed
qed

lemma sortInto_sorted:
  assumes c: "\<forall>a \<in> set placed \<union> set xs. \<forall>b \<in> set placed \<union> set xs. cmp a b = Inr (f a b)"
    and sc: "\<forall>a \<in> set placed \<union> set xs. \<forall>b \<in> set placed \<union> set xs. 0 \<le> f a b \<longrightarrow> f b a \<le> 0"
    and tr: "\<forall>a \<in> set placed \<union> set xs. \<forall>b \<in> set placed \<union> set xs. \<forall>c \<in> set placed \<union> set xs.
               f a b \<le> 0 \<and> f b c \<le> 0 \<longrightarrow> f a c \<le> 0"
    and so: "sorted_wrt (\<lambda>a b. f b a \<le> 0) placed"
  shows "\<exists>ys. sortInto cmp placed xs = Inr ys \<and> sorted_wrt (\<lambda>a b. f a b \<le> (0::int)) ys"
  using assms
proof (induction xs arbitrary: placed)
  case Nil
  have "sorted_wrt (\<lambda>a b. f a b \<le> 0) (rev placed)"
    using Nil.prems(4) by (simp add: sorted_wrt_rev)
  then show ?case by simp
next
  case (Cons x xs)
  let ?S = "set placed \<union> set (x # xs)"
  have xin: "x \<in> ?S" by simp
  have pin: "y \<in> ?S" if "y \<in> set placed" for y using that by simp
  have i1: "\<forall>y \<in> set placed. cmp x y = Inr (f x y)" using Cons.prems(1) xin pin by blast
  have i2: "\<forall>y \<in> set placed. 0 \<le> f x y \<longrightarrow> f y x \<le> 0" using Cons.prems(2) xin pin by blast
  have i3: "\<forall>a \<in> insert x (set placed). \<forall>b \<in> insert x (set placed). \<forall>c \<in> insert x (set placed).
               f a b \<le> 0 \<and> f b c \<le> 0 \<longrightarrow> f a c \<le> 0"
  proof (intro ballI impI)
    fix a b c
    assume "a \<in> insert x (set placed)" "b \<in> insert x (set placed)" "c \<in> insert x (set placed)"
      "f a b \<le> 0 \<and> f b c \<le> 0"
    moreover then have "a \<in> ?S" "b \<in> ?S" "c \<in> ?S" by auto
    ultimately show "f a c \<le> 0" using Cons.prems(3) by blast
  qed
  from insertSorted_sorted[where f = f and cmp = cmp and x = x and ys = placed, OF i1 i2 i3 Cons.prems(4)]
  obtain p where p: "insertSorted cmp x placed = Inr p" and sp: "sorted_wrt (\<lambda>a b. f b a \<le> 0) p"
    by blast
  have eq: "set p \<union> set xs = ?S" using insertSorted_set[OF p] by auto
  have c': "\<forall>a \<in> set p \<union> set xs. \<forall>b \<in> set p \<union> set xs. cmp a b = Inr (f a b)"
    using Cons.prems(1) unfolding eq .
  have sc': "\<forall>a \<in> set p \<union> set xs. \<forall>b \<in> set p \<union> set xs. 0 \<le> f a b \<longrightarrow> f b a \<le> 0"
    using Cons.prems(2) unfolding eq .
  have tr': "\<forall>a \<in> set p \<union> set xs. \<forall>b \<in> set p \<union> set xs. \<forall>c \<in> set p \<union> set xs.
               f a b \<le> 0 \<and> f b c \<le> 0 \<longrightarrow> f a c \<le> 0"
    using Cons.prems(3) unfolding eq .
  from Cons.IH[OF c' sc' tr' sp] obtain ys where
    "sortInto cmp p xs = Inr ys" "sorted_wrt (\<lambda>a b. f a b \<le> 0) ys" by blast
  moreover from this(1) p have "sortInto cmp placed (x # xs) = Inr ys" by simp
  ultimately show ?case by blast
qed

lemma array_sort_sorted:
  assumes c: "\<forall>a \<in> set xs. \<forall>b \<in> set xs. cmp a b = Inr (f a b)"
    and sc: "\<forall>a \<in> set xs. \<forall>b \<in> set xs. 0 \<le> f a b \<longrightarrow> f b a \<le> 0"
    and tr: "\<forall>a \<in> set xs. \<forall>b \<in> set xs. \<forall>c \<in> set xs. f a b \<le> 0 \<and> f b c \<le> 0 \<longrightarrow> f a c \<le> 0"
  shows "\<exists>ys. array_sort cmp xs = Inr ys \<and> sorted_wrt (\<lambda>a b. f a b \<le> (0::int)) ys"
proof -
  have e: "set [] \<union> set xs = set xs" by simp
  have c0: "\<forall>a \<in> set [] \<union> set xs. \<forall>b \<in> set [] \<union> set xs. cmp a b = Inr (f a b)"
    using c unfolding e .
  have sc0: "\<forall>a \<in> set [] \<union> set xs. \<forall>b \<in> set [] \<union> set xs. 0 \<le> f a b \<longrightarrow> f b a \<le> 0"
    using sc unfolding e .
  have tr0: "\<forall>a \<in> set [] \<union> set xs. \<forall>b \<in> set [] \<union> set xs. \<forall>c \<in> set [] \<union> set xs.
               f a b \<le> 0 \<and> f b c \<le> 0 \<longrightarrow> f a c \<le> 0"
    using tr unfolding e .
  have so0: "sorted_wrt (\<lambda>a b. f b a \<le> 0) []" by simp
  from sortInto_sorted[where f = f and cmp = cmp and placed = "[]" and xs = xs, OF c0 sc0 tr0 so0]
  show ?thesis by (simp add: array_sort_def)
qed

text \<open>With a comparator that never throws, the sort returns.\<close>

lemma insertSorted_total:
  "(\<forall>y \<in> set ys. \<exists>v. cmp x y = Inr v) \<Longrightarrow> \<exists>zs. insertSorted cmp x ys = Inr zs"
proof (induction ys)
  case Nil
  show ?case by simp
next
  case (Cons y ys)
  from Cons.prems obtain v where v: "cmp x y = Inr v" by auto
  from Cons.prems have "\<forall>y \<in> set ys. \<exists>v. cmp x y = Inr v" by simp
  from Cons.IH[OF this] obtain zs where "insertSorted cmp x ys = Inr zs" by blast
  with v show ?case by simp
qed

lemma sortInto_total:
  "(\<forall>a \<in> set placed \<union> set xs. \<forall>b \<in> set placed \<union> set xs. \<exists>v. cmp a b = Inr v) \<Longrightarrow>
     \<exists>ys. sortInto cmp placed xs = Inr ys"
proof (induction xs arbitrary: placed)
  case Nil
  show ?case by simp
next
  case (Cons x xs)
  let ?S = "set placed \<union> set (x # xs)"
  have "\<forall>y \<in> set placed. \<exists>v. cmp x y = Inr v"
  proof
    fix y assume "y \<in> set placed"
    then have "y \<in> ?S" by simp
    moreover have "x \<in> ?S" by simp
    ultimately show "\<exists>v. cmp x y = Inr v" using Cons.prems by blast
  qed
  from insertSorted_total[where cmp = cmp and x = x and ys = placed, OF this]
  obtain p where p: "insertSorted cmp x placed = Inr p" by blast
  have eq: "set p \<union> set xs = ?S" using insertSorted_set[OF p] by auto
  have "\<forall>a \<in> set p \<union> set xs. \<forall>b \<in> set p \<union> set xs. \<exists>v. cmp a b = Inr v"
    using Cons.prems unfolding eq .
  from Cons.IH[OF this] p show ?case by simp
qed

lemma array_sort_total:
  "(\<forall>a \<in> set xs. \<forall>b \<in> set xs. \<exists>v. cmp a b = Inr v) \<Longrightarrow> \<exists>ys. array_sort cmp xs = Inr ys"
  using sortInto_total[where cmp = cmp and placed = "[]" and xs = xs] by (simp add: array_sort_def)

lemma sorted_wrt_last: "sorted_wrt R ys \<Longrightarrow> x \<in> set ys \<Longrightarrow> x = last ys \<or> R x (last ys)"
  by (induction ys) auto

lemma array_sort_last_max:
  assumes c: "\<forall>a \<in> set xs. \<forall>b \<in> set xs. cmp a b = Inr (f a b)"
    and sc: "\<forall>a \<in> set xs. \<forall>b \<in> set xs. 0 \<le> f a b \<longrightarrow> f b a \<le> 0"
    and tr: "\<forall>a \<in> set xs. \<forall>b \<in> set xs. \<forall>c \<in> set xs. f a b \<le> 0 \<and> f b c \<le> 0 \<longrightarrow> f a c \<le> 0"
    and r: "array_sort cmp xs = Inr ys"
  shows "\<forall>x \<in> set xs. f x (last ys) \<le> (0::int)"
proof
  fix x assume x: "x \<in> set xs"
  from array_sort_sorted[where f = f and cmp = cmp and xs = xs, OF c sc tr] r
  have s: "sorted_wrt (\<lambda>a b. f a b \<le> 0) ys" by simp
  from x array_sort_set[OF r] have "x \<in> set ys" by simp
  from sc x have "f x x \<le> 0" by (cases "0 \<le> f x x") auto
  with sorted_wrt_last[OF s \<open>x \<in> set ys\<close>] show "f x (last ys) \<le> 0" by auto
qed

lemma compareCreatedAt_stamped:
  "stamped (snd a) \<Longrightarrow> compareCreatedAt collate a b = Inr (collate (stampOf (snd a)) (stampOf (snd b)))"
  by (auto simp: compareCreatedAt_def stamped_def stampOf_def toString_def split: createdAtValue.splits)

lemma loadManifests_nil:
  "(\<forall>d \<in> set dirs. \<not> pathExists (join d MANIFEST_NAME) s) \<Longrightarrow> loadManifests dirs s = (Inr [], s)"
  by (induction dirs) (auto simp: ret_def bind_def loadBackupManifest_def Let_def)

lemma listBackupDirs_total:
  "\<not> pathExists (backupRoot canon) s \<or> isDirectory s (backupRoot canon) \<Longrightarrow>
     \<exists>dirs. listBackupDirs canon s = (Inr dirs, s)"
  by (auto simp: listBackupDirs_def Let_def backupRoot_def ret_def bind_def reading_def readdir_def
        isDirectory_def pathExists_def split: option.splits node.splits)

lemma findLatestBackup_none:
  assumes "noBackups canon s"
  shows "findLatestBackup collate canon s = (Inr None, s)"
proof -
  from assms listBackupDirs_total[of canon s] obtain dirs where
    a: "listBackupDirs canon s = (Inr dirs, s)" by (auto simp: noBackups_def)
  have "\<not> pathExists (join d MANIFEST_NAME) s" if "d \<in> set dirs" for d
    using that listBackupDirs_set[OF a] assms by (auto simp: noBackups_def backupRoot_def)
  then have "loadManifests dirs s = (Inr [], s)" by (intro loadManifests_nil) simp
  with a show ?thesis by (simp add: findLatestBackup_def bind_def ret_def)
qed

lemma loadManifests_total:
  "(\<forall>d \<in> set dirs. pathExists (join d MANIFEST_NAME) s \<longrightarrow> parses s d) \<Longrightarrow>
     \<exists>ms. loadManifests dirs s = (Inr ms, s)"
proof (induction dirs)
  case Nil
  then show ?case by (simp add: ret_def)
next
  case (Cons d dirs)
  then obtain ms where ms: "loadManifests dirs s = (Inr ms, s)" by auto
  show ?case
  proof (cases "pathExists (join d MANIFEST_NAME) s")
    case False
    then have "loadBackupManifest d s = (Inr None, s)" by (simp add: loadBackupManifest_None)
    with ms show ?thesis by (simp add: bind_def ret_def)
  next
    case True
    with Cons.prems loadBackupManifest_parses[of d s] obtain v where
      "loadBackupManifest d s = (Inr (Some v), s)" by auto
    with ms show ?thesis by (simp add: bind_def ret_def)
  qed
qed

text \<open>What a selection of \<^verbatim>\<open>findLatestBackup\<close> is made of.\<close>

lemma findLatestBackup_selected:
  assumes "findLatestBackup collate canon s = (Inr (Some (d, m)), s')"
  shows "\<exists>dirs ms ordered.
           listBackupDirs canon s = (Inr dirs, s) \<and> loadManifests dirs s = (Inr ms, s) \<and>
           ms \<noteq> [] \<and> array_sort (compareCreatedAt collate) ms = Inr ordered \<and>
           (d, m) = last ordered \<and> (d, m) \<in> set ms \<and> s' = s"
proof -
  from assms obtain dirs s1 ms s2 ordered where
    a: "listBackupDirs canon s = (Inr dirs, s1)" and
    b: "loadManifests dirs s1 = (Inr ms, s2)" and
    c: "ms \<noteq> []" and
    o: "array_sort (compareCreatedAt collate) ms = Inr ordered" and
    sel: "(d, m) = last ordered"
    by (auto simp: findLatestBackup_def bind_def ret_def throw_def
             split: sum.splits prod.splits if_splits)
  have s1: "s1 = s" using readonlyD[OF readonly_listBackupDirs a] .
  have s2: "s2 = s" using readonlyD[OF readonly_loadManifests b] s1 by simp
  from array_sort_set[OF o] c have "ordered \<noteq> []" by auto
  then have "last ordered \<in> set ordered" by (rule last_in_set)
  with sel array_sort_set[OF o] have "(d, m) \<in> set ms" by simp
  moreover have "s' = s" using readonlyD[OF readonly_findLatestBackup assms] .
  ultimately show ?thesis using a b c o sel s1 s2 by blast
qed

lemma findLatestBackup_some:
  assumes "findLatestBackup collate canon s = (Inr (Some (d, m)), s')"
  shows "(\<exists>name. d = join (backupRoot canon) name) \<and> isDirectory s d \<and> hasManifest s d m \<and> s' = s"
proof -
  from findLatestBackup_selected[OF assms] obtain dirs ms where
    a: "listBackupDirs canon s = (Inr dirs, s)" and b: "loadManifests dirs s = (Inr ms, s)" and
    mem: "(d, m) \<in> set ms" and s': "s' = s" by blast
  from mem loadManifests_set[OF b] have "d \<in> set dirs" "hasManifest s d m" by auto
  with listBackupDirs_set[OF a] s' show ?thesis by (auto simp: backupRoot_def)
qed

lemma findLatestBackup_greatest:
  assumes sel: "findLatestBackup collate canon s = (Inr (Some (d, m)), s')"
    and st: "allStamped (backupRoot canon) s"
    and co: "collation collate (stampsUnder (backupRoot canon) s)"
    and other: "isDirectory s (join (backupRoot canon) name')"
               "hasManifest s (join (backupRoot canon) name') m'"
  shows "collate (stampOf m') (stampOf m) \<le> 0"
proof -
  from findLatestBackup_selected[OF sel] obtain dirs ms ordered where
    a: "listBackupDirs canon s = (Inr dirs, s)" and b: "loadManifests dirs s = (Inr ms, s)" and
    o: "array_sort (compareCreatedAt collate) ms = Inr ordered" and
    l: "(d, m) = last ordered" and mem: "(d, m) \<in> set ms" by blast
  note dirs = listBackupDirs_set[OF a]
  note mset = loadManifests_set[OF b]
  have in_S: "stamped (snd x) \<and> stampOf (snd x) \<in> stampsUnder (backupRoot canon) s" if "x \<in> set ms" for x
  proof -
    obtain dx mx where x: "x = (dx, mx)" by (cases x)
    with that mset have "dx \<in> set dirs" "hasManifest s dx mx" by auto
    with dirs obtain name where "dx = join (backupRoot canon) name" "isDirectory s dx"
      by (auto simp: backupRoot_def)
    with \<open>hasManifest s dx mx\<close> st x show ?thesis
      by (auto simp: allStamped_def stampsUnder_def)
  qed
  let ?f = "\<lambda>a b. collate (stampOf (snd a)) (stampOf (snd b))"
  have c: "\<forall>a \<in> set ms. \<forall>b \<in> set ms. compareCreatedAt collate a b = Inr (?f a b)"
    using in_S compareCreatedAt_stamped by blast
  have tot: "\<forall>a \<in> set ms. \<forall>b \<in> set ms. 0 \<le> ?f a b \<longrightarrow> ?f b a \<le> 0"
    using in_S co unfolding collation_def by blast
  have tr: "\<forall>a \<in> set ms. \<forall>b \<in> set ms. \<forall>c \<in> set ms. ?f a b \<le> 0 \<and> ?f b c \<le> 0 \<longrightarrow> ?f a c \<le> 0"
    using in_S co unfolding collation_def by blast
  from mem mset have "d \<in> set dirs" by auto
  with dirs have ex: "pathExists (backupRoot canon) s" by (auto simp: backupRoot_def)
  with other(1) dirs have "join (backupRoot canon) name' \<in> set dirs"
    by (auto simp: backupRoot_def)
  with other(2) mset have "(join (backupRoot canon) name', m') \<in> set ms" by simp
  with array_sort_last_max[where f = "?f" and cmp = "compareCreatedAt collate" and xs = ms, OF c tot tr o] l[symmetric] show ?thesis by force
qed

lemma characterOrdered_le:
  "characterOrdered collate S \<Longrightarrow> a \<in> S \<Longrightarrow> b \<in> S \<Longrightarrow> (collate a b \<le> 0) = (a \<le> b)"
  unfolding characterOrdered_def by (metis order.order_iff_strict)

lemma characterOrdered_collation:
  assumes "characterOrdered collate S"
  shows "collation collate S"
  unfolding collation_def
proof (intro conjI ballI impI)
  fix a b assume m: "a \<in> S" "b \<in> S" and "0 \<le> collate a b"
  then have "\<not> collate a b < 0" by simp
  with assms m have "\<not> a < b" unfolding characterOrdered_def by blast
  then have "b \<le> a" by simp
  with characterOrdered_le[OF assms m(2) m(1)] show "collate b a \<le> 0" by simp
next
  fix a b c assume m: "a \<in> S" "b \<in> S" "c \<in> S" and "collate a b \<le> 0 \<and> collate b c \<le> 0"
  with characterOrdered_le[OF assms] have "a \<le> b" "b \<le> c" by blast+
  then have "a \<le> c" by (rule order_trans)
  with characterOrdered_le[OF assms m(1) m(3)] show "collate a c \<le> 0" by simp
qed

lemma findLatestBackup_total:
  assumes root: "isDirectory s (backupRoot canon)"
    and parse: "\<forall>name. isDirectory s (join (backupRoot canon) name) \<and>
                  pathExists (join (join (backupRoot canon) name) MANIFEST_NAME) s
                  \<longrightarrow> parses s (join (backupRoot canon) name)"
    and st: "allStamped (backupRoot canon) s"
    and some: "isDirectory s (join (backupRoot canon) name0)" "hasManifest s (join (backupRoot canon) name0) m0"
  shows "\<exists>d m. findLatestBackup collate canon s = (Inr (Some (d, m)), s)"
proof -
  from listBackupDirs_total[of canon s] root obtain dirs where
    a: "listBackupDirs canon s = (Inr dirs, s)" by auto
  note dirs = listBackupDirs_set[OF a]
  from root have ex: "pathExists (backupRoot canon) s" by (simp add: isDirectory_def pathExists_def)
  have "\<forall>d \<in> set dirs. pathExists (join d MANIFEST_NAME) s \<longrightarrow> parses s d"
    using dirs parse by (auto simp: backupRoot_def)
  from loadManifests_total[OF this] obtain ms where b: "loadManifests dirs s = (Inr ms, s)" by auto
  note mset = loadManifests_set[OF b]
  from some ex dirs have "join (backupRoot canon) name0 \<in> set dirs" by (auto simp: backupRoot_def)
  with mset some(2) have ne: "ms \<noteq> []" by auto
  have "stamped (snd x)" if "x \<in> set ms" for x
  proof -
    obtain dx mx where x: "x = (dx, mx)" by (cases x)
    with that mset have "dx \<in> set dirs" "hasManifest s dx mx" by auto
    with dirs st x show ?thesis by (auto simp: allStamped_def backupRoot_def)
  qed
  then have "\<forall>a \<in> set ms. \<forall>b \<in> set ms. \<exists>v. compareCreatedAt collate a b = Inr v"
    using compareCreatedAt_stamped by blast
  then have "\<exists>ordered. array_sort (compareCreatedAt collate) ms = Inr ordered"
    by (rule array_sort_total[where cmp = "compareCreatedAt collate" and xs = ms])
  then obtain ordered where o: "array_sort (compareCreatedAt collate) ms = Inr ordered" by blast
  obtain d m where "last ordered = (d, m)" by (cases "last ordered")
  with a b ne o show ?thesis
    by (auto simp: findLatestBackup_def bind_def ret_def)
qed

lemma undoLastChange_undoneDir:
  assumes "findLatestBackup (localeCompare e) (canonicalRoot (resolveRoots e opts)) s = (Inr (Some (d, m)), s')"
      and "undoLastChange e opts s = (Inr res, s2)"
  shows "undoneDir res = d"
  using assms
  by (auto simp: undoLastChange_def Let_def bind_def ret_def throw_def
           split: sum.splits prod.splits option.splits)

text \<open>Conditions on the manifests of a filesystem, as checks over its files.\<close>

lemma hasManifest_file: "hasManifest s d m \<Longrightarrow> m \<in> set (fileManifests s)"
proof -
  assume h: "hasManifest s d m"
  then obtain raw where r: "readFile (join d MANIFEST_NAME) s = Inr raw"
    and p: "JSON_parse raw = Inr (JsonTruthy m)"
    by (auto simp: hasManifest_def split: sum.splits)
  from r obtain q where "lookup s q = Some (File raw)"
    by (auto simp: readFile_def split: option.splits node.splits)
  then have "(q, File raw) \<in> set (nodes s)"
    by (auto simp: lookup_def dest: map_of_SomeD split: if_splits)
  with p show ?thesis
    by (force simp: fileManifests_def)
qed

lemma allStamped_files: "list_all stamped (fileManifests s) \<Longrightarrow> allStamped b s"
  using hasManifest_file by (auto simp: allStamped_def list_all_iff)

lemma stampsUnder_files: "stampsUnder b s \<subseteq> set (map stampOf (fileManifests s))"
  using hasManifest_file by (auto simp: stampsUnder_def)

lemma collation_subset: "collation collate T \<Longrightarrow> S \<subseteq> T \<Longrightarrow> collation collate S"
  unfolding collation_def by (meson subsetD)

lemma characterOrder_ordered: "characterOrdered characterOrder S"
  by (auto simp: characterOrdered_def characterOrder_def)

lemma timestamped_files:
  "list_all (\<lambda>m. stamped m \<and> isoTimestamp (stampOf m)) (fileManifests s) \<Longrightarrow> timestamped b s"
  using hasManifest_file by (auto simp: timestamped_def list_all_iff)

lemma timestamped_ordered:
  assumes "ordersTimestamps collate" and "timestamped b s"
  shows "allStamped b s \<and> characterOrdered collate (stampsUnder b s)"
proof -
  from assms(2) have "stampsUnder b s \<subseteq> {c. isoTimestamp c}"
    by (auto simp: timestamped_def stampsUnder_def)
  with assms(1) have "characterOrdered collate (stampsUnder b s)"
    unfolding ordersTimestamps_def characterOrdered_def by blast
  moreover from assms(2) have "allStamped b s" by (auto simp: timestamped_def allStamped_def)
  ultimately show ?thesis by blast
qed

section \<open>Undo without a backup\<close>

text \<open>
  Claim C9, refuted as stated: on a home directory without any backup,
  \<^verbatim>\<open>undoLastChange\<close> rejects with the error \<^verbatim>\<open>No backups found to undo.\<close>
\<close>

theorem undo_without_backups_counterexample:
  "fst (undoLastChange env0 globalOpts fs0) = Inl NoBackups"
  by code_simp

text \<open>
  Claim C9, amended. When no directory under the canonical root's backup directory holds a
  manifest file, \<^verbatim>\<open>undoLastChange\<close> rejects with the error
  \<^verbatim>\<open>No backups found to undo.\<close>, which the caller has to catch, and it leaves the
  filesystem exactly as it was: no undo session directory is created.
\<close>

theorem no_backups_is_thrown:
  assumes "noBackups (canonicalRoot (resolveRoots e opts)) s"
  shows "undoLastChange e opts s = (Inl NoBackups, s)"
  using findLatestBackup_none[OF assms, of "localeCompare e"]
  by (simp add: undoLastChange_def Let_def bind_def throw_def)

theorem no_backups_is_thrown_witness:
  "noBackups (canonicalRoot (resolveRoots env0 globalOpts)) fsUnfinalized \<and>
   undoLastChange env0 globalOpts fsUnfinalized = (Inl NoBackups, fsUnfinalized)"
proof -
  have c: "canonicalRoot (resolveRoots env0 globalOpts) = agents0"
    by code_simp
  have "noBackups agents0 fsUnfinalized"
    by (auto simp: noBackups_def backupRoot_def agents0_def join_def isDirectory_def
          pathExists_def lookup_def fsUnfinalized_def sessionOpen_def MANIFEST_NAME_def split: if_splits)
  with c have h: "noBackups (canonicalRoot (resolveRoots env0 globalOpts)) fsUnfinalized"
    by simp
  from no_backups_is_thrown[OF h] h show ?thesis by simp
qed

section \<open>The counters of undoLastChange\<close>






section \<open>The contract of backupPath\<close>

text \<open>
  Claim C4. \<^verbatim>\<open>backupPath\<close> resolves to \<open>False\<close>, with the session and the filesystem
  as they were, when the target does not exist or when a path recorded in the session is
  the target or an ancestor directory of it. Whenever it resolves, it has either recorded
  nothing (\<open>False\<close>) or appended exactly one entry, with action \<^verbatim>\<open>backup\<close>, for the
  target (\<open>True\<close>). Once a directory has been backed up, a later call for a path beneath
  it records nothing, in whatever state the session and the filesystem then are, as long
  as the session still remembers what it has seen. Otherwise, when the filesystem allows
  the move (\<open>canMove\<close>), the call resolves to \<open>True\<close>, the target's subtree stands in the
  backup tree and the entry is appended. The root is never recorded as seen: a call for
  the root rejects (for the root, \<^verbatim>\<open>parent + path.sep\<close> would not be a prefix of the
  paths beneath it).
\<close>

theorem backupPath_contract:
  "(\<not> pathExists target s \<or>
    (\<exists>parent \<in> set (seen session). parent = target \<or> (parent \<noteq> [] \<and> strict_prefix parent target))
      \<longrightarrow> backupPath target session s = (Inr (False, session), s)) \<and>
   (\<forall>moved session' s'. backupPath target session s = (Inr (moved, session'), s') \<longrightarrow>
      (moved \<longrightarrow> (\<exists>n. lookup s target = Some n \<and>
                      session' = recorded session
                        (backupEntryFor target (backupPathFor target (session_dir session)) n))) \<and>
      (\<not> moved \<longrightarrow> session' = session \<and> s' = s) \<and>
      ([] \<notin> set (seen session) \<longrightarrow> [] \<notin> set (seen session'))) \<and>
   (\<forall>session1 s1 session2 s2 nested.
      backupPath target session s = (Inr (True, session1), s1) \<and>
      set (seen session1) \<subseteq> set (seen session2) \<and> strict_prefix target nested
      \<longrightarrow> backupPath nested session2 s2 = (Inr (False, session2), s2)) \<and>
   (\<forall>n. lookup s target = Some n \<and>
        \<not> hasParentPath target (seen session) \<and>
        canMove s target (backupPathFor target (session_dir session))
      \<longrightarrow> (\<exists>s'. backupPath target session s =
                   (Inr (True, recorded session
                      (backupEntryFor target (backupPathFor target (session_dir session)) n)), s') \<and>
                 movedTo s s' target (backupPathFor target (session_dir session))))"
proof (intro conjI allI impI)
  assume "\<not> pathExists target s \<or>
    (\<exists>parent \<in> set (seen session). parent = target \<or> (parent \<noteq> [] \<and> strict_prefix parent target))"
  then show "backupPath target session s = (Inr (False, session), s)"
    by (intro backupPath_noop) (simp add: hasParentPath_iff)
next
  fix moved session' s'
  assume r: "backupPath target session s = (Inr (moved, session'), s')"
  note res = backupPath_result[OF r]
  {
    assume moved
    with res show "\<exists>n. lookup s target = Some n \<and>
                      session' = recorded session
                        (backupEntryFor target (backupPathFor target (session_dir session)) n)"
      by blast
  }
  {
    assume "\<not> moved"
    with res show "session' = session" "s' = s" by blast+
  }
  {
    assume nr: "[] \<notin> set (seen session)"
    show "[] \<notin> set (seen session')"
    proof (cases moved)
      case True
      with r backupPath_root_fails[of session s session' s'] have "target \<noteq> []" by auto
      with True res nr show ?thesis by (auto simp: recorded_def backupEntryFor_def)
    next
      case False
      with res nr show ?thesis by simp
    qed
  }
next
  fix session1 session2 :: BackupSession and s1 s2 :: filesys and nested :: path
  assume h: "backupPath target session s = (Inr (True, session1), s1) \<and>
      set (seen session1) \<subseteq> set (seen session2) \<and> strict_prefix target nested"
  with backupPath_root_fails[of session s session1 s1] have ne: "target \<noteq> []" by auto
  from h backupPath_result[of target session s True session1 s1]
  have "target \<in> set (seen session1)" by (auto simp: recorded_def backupEntryFor_def)
  with h ne have "hasParentPath nested (seen session2)"
    by (auto simp: hasParentPath_iff)
  then show "backupPath nested session2 s2 = (Inr (False, session2), s2)"
    by (intro backupPath_noop) simp
next
  fix n
  assume "lookup s target = Some n \<and>
        \<not> hasParentPath target (seen session) \<and>
        canMove s target (backupPathFor target (session_dir session))"
  then show "\<exists>s'. backupPath target session s =
                   (Inr (True, recorded session
                      (backupEntryFor target (backupPathFor target (session_dir session)) n)), s') \<and>
                 movedTo s s' target (backupPathFor target (session_dir session))"
    by (intro backupPath_moves) simp_all
qed

lemma canMove_example:
  "canMove fs0 [''home'', ''u'', ''.codex'', ''prompts'']
     (backupPathFor [''home'', ''u'', ''.codex'', ''prompts''] (session_dir sessionT))"
  unfolding canMove_def
proof (intro conjI allI impI)
  let ?dst = "backupPathFor [''home'', ''u'', ''.codex'', ''prompts''] (session_dir sessionT)"
  show "[''home'', ''u'', ''.codex'', ''prompts''] \<noteq> []" by simp
  show "?dst \<noteq> []" by (simp add: backupPathFor_def)
  show "lookup fs0 [''home'', ''u'', ''.codex'', ''prompts''] \<noteq> None" by code_simp
  show "\<not> prefix [''home'', ''u'', ''.codex'', ''prompts''] ?dst" by code_simp
  show "\<not> prefix ?dst [''home'', ''u'', ''.codex'', ''prompts'']" by code_simp
  show "isDirectory fs0 (dirname [''home'', ''u'', ''.codex'', ''prompts''])" by code_simp
  show "lookup fs0 (?dst @ q) = None" for q
    by (simp add: lookup_def fs0_def backupPathFor_def sessionT_def agents0_def)
  show "lookup fs0 q = None \<or> lookup fs0 q = Some Dir" if "prefix q (dirname ?dst)" for q
  proof -
    from that have "q \<in> set (prefixes (dirname ?dst))" by (simp only: in_set_prefixes)
    then show ?thesis
      by (auto simp: lookup_def fs0_def backupPathFor_def sessionT_def agents0_def dirname_def)
  qed
  show "lookup fs0 ([''home'', ''u'', ''.codex'', ''prompts''] @ q) = None"
    if "lookup fs0 [''home'', ''u'', ''.codex'', ''prompts''] \<noteq> Some Dir" for q
    using that by (simp add: lookup_def fs0_def)
qed

theorem backupPath_contract_witness:
  "(\<exists>s'. backupPath [''home'', ''u'', ''.codex'', ''prompts''] sessionT fs0 =
            (Inr (True, recorded sessionT
               (backupEntryFor [''home'', ''u'', ''.codex'', ''prompts'']
                  (session_dir sessionT @ [''home'', ''u'', ''.codex'', ''prompts'']) Dir)), s') \<and>
         lookup s' (session_dir sessionT @ [''home'', ''u'', ''.codex'', ''prompts'', ''keep.md''])
           = Some (File (Text ''# keep'')) \<and>
         lookup s' [''home'', ''u'', ''.codex'', ''prompts''] = None) \<and>
   backupPath [''home'', ''u'', ''.claude''] sessionT fs0 = (Inr (False, sessionT), fs0)"
proof -
  let ?t = "[''home'', ''u'', ''.codex'', ''prompts'']"
  have d: "backupPathFor ?t (session_dir sessionT) = session_dir sessionT @ ?t"
    by (simp add: backupPathFor_def)
  have n: "lookup fs0 ?t = Some Dir" by code_simp
  have k: "lookup fs0 (?t @ [''keep.md'']) = Some (File (Text ''# keep''))" by code_simp
  have hp: "\<not> hasParentPath ?t (seen sessionT)" by code_simp
  have ne: "\<not> pathExists [''home'', ''u'', ''.claude''] fs0" by code_simp
  from backupPath_contract[of ?t fs0 sessionT] n hp canMove_example
  obtain s' where
    r: "backupPath ?t sessionT fs0 =
          (Inr (True, recorded sessionT
             (backupEntryFor ?t (backupPathFor ?t (session_dir sessionT)) Dir)), s')" and
    m: "movedTo fs0 s' ?t (backupPathFor ?t (session_dir sessionT))"
    by blast
  from m have "lookup s' ((session_dir sessionT @ ?t) @ [''keep.md'']) = lookup fs0 (?t @ [''keep.md''])"
    and "lookup s' (?t @ []) = None"
    unfolding movedTo_def d by blast+
  with r k d have a: "\<exists>s'. backupPath ?t sessionT fs0 =
            (Inr (True, recorded sessionT (backupEntryFor ?t (session_dir sessionT @ ?t) Dir)), s') \<and>
         lookup s' (session_dir sessionT @ [''home'', ''u'', ''.codex'', ''prompts'', ''keep.md''])
           = Some (File (Text ''# keep'')) \<and>
         lookup s' ?t = None"
    by auto
  from backupPath_contract[of "[''home'', ''u'', ''.claude'']" fs0 sessionT] ne
  have b: "backupPath [''home'', ''u'', ''.claude''] sessionT fs0 = (Inr (False, sessionT), fs0)"
    by blast
  from a b show ?thesis by blast
qed

section \<open>Rename first, copy only across devices\<close>

text \<open>
  Claim C6. Once the parent directory of the destination has been ensured, moving a file
  or directory into the backup tree (\<^verbatim>\<open>backupPathImpl\<close>) and moving it back
  (\<^verbatim>\<open>restorePath\<close>) attempt a rename: if the rename succeeds, its result is the result
  and nothing is copied; if it fails with \<^verbatim>\<open>EXDEV\<close>, the result is that of the recursive
  (or single-file) copy followed by the removal of the source; if it fails with any other
  error, the function rejects with that error in the state the failed rename left. Such a
  rejection propagates: \<^verbatim>\<open>backupPath\<close> rejects with it and records nothing, the loops
  of \<^verbatim>\<open>undoLastChange\<close> stop at the failing entry, and \<^verbatim>\<open>undoLastChange\<close> itself
  rejects without finalizing.
\<close>

theorem rename_first_then_copy:
  "(\<forall>s1. ensureDir (dirname dest) s = (Inr (), s1) \<longrightarrow>
      (\<forall>s2. rename target dest s1 = Inr s2 \<longrightarrow>
         backupPathImpl target dest kind s = (Inr (), s2)) \<and>
      (rename target dest s1 = Inl EXDEV \<longrightarrow>
         backupPathImpl target dest kind s =
           bind (if kind = KDir then copyDir target dest True else copyFile target dest True)
             (\<lambda>_. removePath target) s1) \<and>
      (\<forall>err. rename target dest s1 = Inl err \<and> err \<noteq> EXDEV \<longrightarrow>
         backupPathImpl target dest kind s = (Inl (IOError err), s1))) \<and>
   (\<forall>bp s1. action entry = ABackup \<and> entry_backupPath entry = Some bp \<and>
             entry_kind entry \<noteq> KSymlink \<and>
             ensureDir (dirname (originalPath entry)) s = (Inr (), s1) \<longrightarrow>
      (\<forall>s2. rename bp (originalPath entry) s1 = Inr s2 \<longrightarrow>
         restorePath entry s = (Inr (), s2)) \<and>
      (rename bp (originalPath entry) s1 = Inl EXDEV \<longrightarrow>
         restorePath entry s =
           bind (if entry_kind entry = KDir then writing (cp bp (originalPath entry))
                 else writing (fs_copyFile bp (originalPath entry)))
             (\<lambda>_. removePath bp) s1) \<and>
      (\<forall>err. rename bp (originalPath entry) s1 = Inl err \<and> err \<noteq> EXDEV \<longrightarrow>
         restorePath entry s = (Inl (IOError err), s1))) \<and>
   (\<forall>err s1 n. backupPathImpl target (backupPathFor target (session_dir session)) (kindOf n) s
                  = (Inl err, s1) \<and>
               lookup s target = Some n \<and> kindOf n \<noteq> KSymlink \<and>
               \<not> hasParentPath target (seen session) \<longrightarrow>
      backupPath target session s = (Inl err, s1) \<and>
      (\<forall>e0 rest. originalPath e0 = target \<longrightarrow>
         backupExistingOriginals (e0 # rest) session s = (Inl err, s1))) \<and>
   (\<forall>err s1 bp c rest. restorePath entry s = (Inl err, s1) \<and> action entry = ABackup \<and>
               entry_backupPath entry = Some bp \<and> pathExists bp s \<longrightarrow>
      undoLoop (entry # rest) c s = (Inl err, s1)) \<and>
   (\<forall>e opts d m es undoSession sa undoSession' sb err sc.
      findLatestBackup (localeCompare e) (canonicalRoot (resolveRoots e opts)) s
        = (Inr (Some (d, m)), s) \<and>
      entriesOrEmpty m = Some es \<and>
      createBackupSession (now e) (canonicalRoot (resolveRoots e opts)) (scope opts) ''undo'' None s
        = (Inr undoSession, sa) \<and>
      (backupExistingOriginals es undoSession sa = (Inl err, sc) \<or>
       backupExistingOriginals es undoSession sa = (Inr undoSession', sb) \<and>
       undoLoop es noCounts sb = (Inl err, sc)) \<longrightarrow>
      undoLastChange e opts s = (Inl err, sc))"
proof (intro conjI allI impI)
  fix s1 s2
  assume "ensureDir (dirname dest) s = (Inr (), s1)" "rename target dest s1 = Inr s2"
  then show "backupPathImpl target dest kind s = (Inr (), s2)"
    by (simp add: backupPathImpl_def bind_def)
next
  fix s1
  assume "ensureDir (dirname dest) s = (Inr (), s1)" "rename target dest s1 = Inl EXDEV"
  then show "backupPathImpl target dest kind s =
           bind (if kind = KDir then copyDir target dest True else copyFile target dest True)
             (\<lambda>_. removePath target) s1"
    by (simp add: backupPathImpl_def bind_def)
next
  fix s1 err
  assume "ensureDir (dirname dest) s = (Inr (), s1)" "rename target dest s1 = Inl err \<and> err \<noteq> EXDEV"
  then show "backupPathImpl target dest kind s = (Inl (IOError err), s1)"
    by (simp add: backupPathImpl_def bind_def)
next
  fix bp s1 s2
  assume "action entry = ABackup \<and> entry_backupPath entry = Some bp \<and>
             entry_kind entry \<noteq> KSymlink \<and>
             ensureDir (dirname (originalPath entry)) s = (Inr (), s1)"
     "rename bp (originalPath entry) s1 = Inr s2"
  then show "restorePath entry s = (Inr (), s2)"
    by (simp add: restorePath_def bind_def)
next
  fix bp s1
  assume "action entry = ABackup \<and> entry_backupPath entry = Some bp \<and>
             entry_kind entry \<noteq> KSymlink \<and>
             ensureDir (dirname (originalPath entry)) s = (Inr (), s1)"
     "rename bp (originalPath entry) s1 = Inl EXDEV"
  then show "restorePath entry s =
           bind (if entry_kind entry = KDir then writing (cp bp (originalPath entry))
                 else writing (fs_copyFile bp (originalPath entry)))
             (\<lambda>_. removePath bp) s1"
    by (simp add: restorePath_def bind_def)
next
  fix bp s1 err
  assume "action entry = ABackup \<and> entry_backupPath entry = Some bp \<and>
             entry_kind entry \<noteq> KSymlink \<and>
             ensureDir (dirname (originalPath entry)) s = (Inr (), s1)"
     "rename bp (originalPath entry) s1 = Inl err \<and> err \<noteq> EXDEV"
  then show "restorePath entry s = (Inl (IOError err), s1)"
    by (simp add: restorePath_def bind_def)
next
  fix err s1 n
  assume h: "backupPathImpl target (backupPathFor target (session_dir session)) (kindOf n) s
                  = (Inl err, s1) \<and>
               lookup s target = Some n \<and> kindOf n \<noteq> KSymlink \<and>
               \<not> hasParentPath target (seen session)"
  then show b: "backupPath target session s = (Inl err, s1)"
    by (simp add: backupPath_def Let_def bind_def reading_def lstat_def pathExists_def resolvePath_def)
  fix e0 :: BackupEntry and rest
  assume "originalPath e0 = target"
  with h b show "backupExistingOriginals (e0 # rest) session s = (Inl err, s1)"
    by (simp add: bind_def pathExists_def)
next
  fix err s1 bp c rest
  assume "restorePath entry s = (Inl err, s1) \<and> action entry = ABackup \<and>
               entry_backupPath entry = Some bp \<and> pathExists bp s"
  then show "undoLoop (entry # rest) c s = (Inl err, s1)"
    by (simp add: undoEntry_def bind_def)
next
  fix e :: env and opts :: "'a RootOptions_scheme" and d m es undoSession sa undoSession' sb err sc
  assume "findLatestBackup (localeCompare e) (canonicalRoot (resolveRoots e opts)) s
        = (Inr (Some (d, m)), s) \<and>
      entriesOrEmpty m = Some es \<and>
      createBackupSession (now e) (canonicalRoot (resolveRoots e opts)) (scope opts) ''undo'' None s
        = (Inr undoSession, sa) \<and>
      (backupExistingOriginals es undoSession sa = (Inl err, sc) \<or>
       backupExistingOriginals es undoSession sa = (Inr undoSession', sb) \<and>
       undoLoop es noCounts sb = (Inl err, sc))"
  then show "undoLastChange e opts s = (Inl err, sc)"
    by (auto simp: undoLastChange_def Let_def bind_def)
qed

theorem rename_first_then_copy_witness:
  "rename [''home'', ''u'', ''.codex'', ''prompts'']
     (session_dir sessionT @ [''home'', ''u'', ''.codex'', ''prompts''])
     (snd (ensureDir (session_dir sessionT @ [''home'', ''u'', ''.codex'']) fsTwoDevices))
     = Inl EXDEV \<and>
   fst (backupPathImpl [''home'', ''u'', ''.codex'', ''prompts'']
          (session_dir sessionT @ [''home'', ''u'', ''.codex'', ''prompts'']) KDir fsTwoDevices)
     = Inr () \<and>
   lookup (snd (backupPathImpl [''home'', ''u'', ''.codex'', ''prompts'']
                  (session_dir sessionT @ [''home'', ''u'', ''.codex'', ''prompts'']) KDir
                  fsTwoDevices))
     (session_dir sessionT @ [''home'', ''u'', ''.codex'', ''prompts'', ''keep.md''])
     = Some (File (Text ''# keep'')) \<and>
   lookup (snd (backupPathImpl [''home'', ''u'', ''.codex'', ''prompts'']
                  (session_dir sessionT @ [''home'', ''u'', ''.codex'', ''prompts'']) KDir
                  fsTwoDevices))
     [''home'', ''u'', ''.codex'', ''prompts''] = None"
proof -
  let ?t = "[''home'', ''u'', ''.codex'', ''prompts'']"
  let ?d = "session_dir sessionT @ [''home'', ''u'', ''.codex'', ''prompts'']"
  let ?s1 = "snd (ensureDir (session_dir sessionT @ [''home'', ''u'', ''.codex'']) fsTwoDevices)"
  have dn: "dirname ?d = session_dir sessionT @ [''home'', ''u'', ''.codex'']"
    by (simp add: dirname_def butlast_append)
  have "fst (ensureDir (dirname ?d) fsTwoDevices) = Inr ()" by code_simp
  then have e: "ensureDir (dirname ?d) fsTwoDevices = (Inr (), ?s1)"
    unfolding dn by (metis prod.collapse)
  have r: "rename ?t ?d ?s1 = Inl EXDEV" by code_simp
  note first = rename_first_then_copy[of ?d fsTwoDevices ?t KDir promptsEntry sessionT,
      THEN conjunct1, rule_format, OF e, THEN conjunct2, THEN conjunct1, rule_format, OF r]
  from first have eq: "backupPathImpl ?t ?d KDir fsTwoDevices =
          bind (if KDir = KDir then copyDir ?t ?d True else copyFile ?t ?d True)
            (\<lambda>_. removePath ?t) ?s1" .
  have a: "fst (bind (if KDir = KDir then copyDir ?t ?d True else copyFile ?t ?d True)
            (\<lambda>_. removePath ?t) ?s1) = Inr ()"
    by code_simp
  have b: "lookup (snd (bind (if KDir = KDir then copyDir ?t ?d True else copyFile ?t ?d True)
            (\<lambda>_. removePath ?t) ?s1))
          (session_dir sessionT @ [''home'', ''u'', ''.codex'', ''prompts'', ''keep.md''])
          = Some (File (Text ''# keep''))"
    by code_simp
  have c: "lookup (snd (bind (if KDir = KDir then copyDir ?t ?d True else copyFile ?t ?d True)
            (\<lambda>_. removePath ?t) ?s1)) ?t = None"
    by code_simp
  from r a b c show ?thesis unfolding eq by blast
qed

section \<open>Forced replacement in applyLinkPlan\<close>

text \<open>
  \<^verbatim>\<open>commonPath\<close> never finds a common directory: every resolved POSIX path splits into a
  first piece that is the empty string, at which the loop breaks. So \<^verbatim>\<open>inferBackupDir\<close>
  yields nothing, and a forced apply backs up only into a directory that the caller names.
\<close>

lemma commonPath_None: "commonPath ps = None"
proof (cases ps)
  case Nil
  then show ?thesis by (simp add: commonPath_def)
next
  case (Cons p rest)
  have h: "hd (map (\<lambda>p. splitSep (resolvePath p)) (p # rest)) ! 0 = []"
    by (simp add: splitSep_def)
  have "takeWhile P [0..<n] = []" if "\<not> P 0" for P and n :: nat
    using that by (cases n) (simp_all add: upt_rec)
  from this[of "\<lambda>i. hd (map (\<lambda>p. splitSep (resolvePath p)) (p # rest)) ! i \<noteq> [] \<and>
                     list_all (\<lambda>parts. parts ! i = hd (map (\<lambda>p. splitSep (resolvePath p)) (p # rest)) ! i)
                       (map (\<lambda>p. splitSep (resolvePath p)) (p # rest))"] h
  show ?thesis
    unfolding Cons commonPath_def Let_def by simp
qed

text \<open>
  Claim C3 fails on \<^verbatim>\<open>applyLinkPlan\<close> as it stands in apply.ts. It takes a backup
  directory, not a session, and records no manifest entry. A forced apply over a stale
  symbolic link removes the link without backing it up, even though a backup directory is
  given: the old link text is nowhere in the resulting filesystem and nothing stands in
  the backup directory. A forced apply without a backup directory deletes a conflicting
  real directory with its file: the file's content is nowhere afterwards.
\<close>

theorem forced_apply_without_backup:
  "fst (applyLinkPlan (now env0) planRelink (forceInto (session_dir sessionT)) fsStale) =
     Inr \<lparr>applied = 1, skipped = 0, conflicts = 0,
          apply_backupDir = Some (session_dir sessionT), backedUp = 0\<rparr> \<and>
   lookup fsStale staleTarget = Some (Symlink [''home'', ''u'', ''old-commands'']) \<and>
   lookup (snd (applyLinkPlan (now env0) planRelink (forceInto (session_dir sessionT)) fsStale))
     staleTarget = Some (Symlink (agents0 @ [''commands''])) \<and>
   list_all (\<lambda>(p, n). n \<noteq> Symlink [''home'', ''u'', ''old-commands''])
     (nodes (snd (applyLinkPlan (now env0) planRelink (forceInto (session_dir sessionT)) fsStale))) \<and>
   list_all (\<lambda>(p, n). \<not> prefix (session_dir sessionT) p)
     (nodes (snd (applyLinkPlan (now env0) planRelink (forceInto (session_dir sessionT)) fsStale))) \<and>
   fst (applyLinkPlan (now env0) plan0 forceOnly fs0) =
     Inr \<lparr>applied = 3, skipped = 0, conflicts = 1, apply_backupDir = None, backedUp = 0\<rparr> \<and>
   lookup (snd (applyLinkPlan (now env0) plan0 forceOnly fs0)) [''home'', ''u'', ''.codex'', ''prompts'']
     = Some (Symlink (agents0 @ [''commands''])) \<and>
   list_all (\<lambda>(p, n). n \<noteq> File (Text ''# keep''))
     (nodes (snd (applyLinkPlan (now env0) plan0 forceOnly fs0)))"
  by code_simp

section \<open>Undoing a manifest\<close>

subsection \<open>The restore loop\<close>

lemma restore_step:
  assumes m: "mirrored d e" and r: "ready d t e" and b: "restorable d t e"
  shows "\<exists>t1. restorePath e t = (Inr (), t1) \<and> movedTo t t1 (d @ originalPath e) (originalPath e)"
proof -
  let ?o = "originalPath e"
  from b obtain n where n: "lookup t (d @ ?o) = Some n" and a: "action e = ABackup"
    by (auto simp: restorable_def)
  from m a have bp: "entry_backupPath e = Some (d @ ?o)" and ne: "?o \<noteq> []"
    and u: "unrelated ?o d" by (simp_all add: mirrored_def)
  from r n a have k: "entry_kind e = kindOf n" and pd: "isDirectory t (dirname (d @ ?o))"
    and leaf: "n \<noteq> Dir \<longrightarrow> (\<forall>q. q \<noteq> [] \<longrightarrow> lookup t (d @ ?o @ q) = None)"
    by (simp_all add: ready_def)
  have "canMove t (d @ ?o) ?o"
    unfolding canMove_def
  proof (intro conjI)
    show "d @ ?o \<noteq> []" using ne by simp
    show "?o \<noteq> []" by (rule ne)
    show "lookup t (d @ ?o) \<noteq> None" using n by simp
    show "\<not> prefix (d @ ?o) ?o" using unrelated_np[OF unrelated_sym[OF u], of ?o "[]"] by simp
    show "\<not> prefix ?o (d @ ?o)" using unrelated_np0[OF u] by simp
    show "\<forall>q. lookup t (?o @ q) = None" using r by (simp add: ready_def)
    show "\<forall>q. prefix q (dirname ?o) \<longrightarrow> lookup t q = None \<or> lookup t q = Some Dir"
      using r by (simp add: ready_def)
    show "isDirectory t (dirname (d @ ?o))" by (rule pd)
    show "lookup t (d @ ?o) \<noteq> Some Dir \<longrightarrow> (\<forall>q. q \<noteq> [] \<longrightarrow> lookup t ((d @ ?o) @ q) = None)"
      using n leaf by auto
  qed
  from restorePath_moves[OF a bp this n k] show ?thesis .
qed

lemma undoEntry_restores:
  assumes m: "mirrored d e" and r: "ready d t e" and b: "restorable d t e"
  shows "\<exists>c' t1. undoEntry e c t = (Inr c', t1) \<and>
                 movedTo t t1 (d @ originalPath e) (originalPath e)"
proof -
  from restore_step[OF m r b] obtain t1 where
    "restorePath e t = (Inr (), t1)" "movedTo t t1 (d @ originalPath e) (originalPath e)" by blast
  moreover from b m have "action e = ABackup" "entry_backupPath e = Some (d @ originalPath e)"
    "pathExists (d @ originalPath e) t"
    by (auto simp: restorable_def mirrored_def pathExists_def)
  ultimately show ?thesis
    by (auto simp: undoEntry_def bind_def ret_def)
qed

lemma undoEntry_skips:
  assumes m: "mirrored d e" and r: "ready d t e" and b: "\<not> restorable d t e"
  shows "undoEntry e c t = (Inr c, t)"
proof (cases "action e")
  case ABackup
  with m b have "entry_backupPath e = Some (d @ originalPath e)" "\<not> pathExists (d @ originalPath e) t"
    by (auto simp: restorable_def mirrored_def pathExists_def)
  with ABackup show ?thesis by (simp add: undoEntry_def ret_def)
next
  case ACreate
  from r have "lookup t (originalPath e @ []) = None" unfolding ready_def by blast
  then have "\<not> pathExists (originalPath e) t" by (simp add: pathExists_def)
  with ACreate show ?thesis by (simp add: undoEntry_def ret_def)
qed

text \<open>A restore of one entry leaves another entry, whose paths are unrelated, ready.\<close>

lemma movedTo_outside:
  assumes mv: "movedTo t t1 src dst" and "\<not> prefix src p" "\<not> prefix dst p"
  shows "lookup t1 p = withDirs (dirname dst) (lookup t) p"
  using assms by (simp add: movedTo_def)

lemma dirname_append: "b \<noteq> [] \<Longrightarrow> dirname (a @ b) = a @ dirname b"
  by (simp add: dirname_def butlast_append)

lemma restore_keeps_ready:
  assumes mv: "movedTo t t1 (d @ o1) o1"
    and u1: "unrelated o1 d" and m: "mirrored d e" and un: "unrelated o1 (originalPath e)"
    and r: "ready d t e"
  shows "ready d t1 e \<and> (\<forall>q. lookup t1 (d @ originalPath e @ q) = lookup t (d @ originalPath e @ q))"
proof -
  let ?o = "originalPath e"
  from m have ne: "?o \<noteq> []" and u: "unrelated ?o d" by (simp_all add: mirrored_def)
  have orig: "lookup t1 (?o @ q) = None" for q
  proof -
    have "\<not> prefix (d @ o1) (?o @ q)"
      by (rule unrelated_np[OF unrelated_sym[OF u]])
    moreover have "\<not> prefix o1 (?o @ q)" by (rule unrelated_np0[OF un])
    ultimately have "lookup t1 (?o @ q) = withDirs (dirname o1) (lookup t) (?o @ q)"
      by (rule movedTo_outside[OF mv])
    moreover have "\<not> prefix (?o @ q) (dirname o1)"
      by (rule unrelated_dirname[OF unrelated_sym[OF un]])
    moreover from r have "lookup t (?o @ q) = None" by (simp add: ready_def)
    ultimately show ?thesis by (simp add: withDirs_other)
  qed
  have anc: "lookup t1 q = None \<or> lookup t1 q = Some Dir" if "prefix q (dirname ?o)" for q
  proof -
    from that have qo: "prefix q ?o" using dirname_prefix[of ?o] by (meson prefix_order.trans)
    have "\<not> prefix (d @ o1) q"
    proof
      assume "prefix (d @ o1) q"
      with qo have "prefix d ?o" by (meson append_prefixD prefix_order.trans)
      with u show False by (simp add: unrelated_def)
    qed
    moreover have "\<not> prefix o1 q"
    proof
      assume "prefix o1 q"
      with qo have "prefix o1 ?o" by (meson prefix_order.trans)
      with un show False by (simp add: unrelated_def)
    qed
    ultimately have "lookup t1 q = withDirs (dirname o1) (lookup t) q"
      by (rule movedTo_outside[OF mv])
    moreover from r that have "lookup t q = None \<or> lookup t q = Some Dir" by (simp add: ready_def)
    ultimately show ?thesis by (auto simp: withDirs_def)
  qed
  have copy: "lookup t1 (d @ ?o @ q) = lookup t (d @ ?o @ q)" for q
  proof -
    have "\<not> prefix (d @ o1) (d @ ?o @ q)" using unrelated_np0[OF un, of q] by simp
    moreover have "\<not> prefix o1 (d @ ?o @ q)" by (rule unrelated_np0[OF u1])
    ultimately have "lookup t1 (d @ ?o @ q) = withDirs (dirname o1) (lookup t) (d @ ?o @ q)"
      by (rule movedTo_outside[OF mv])
    moreover have "\<not> prefix (d @ ?o @ q) (dirname o1)"
      using unrelated_dirname[OF unrelated_sym[OF u1], of "?o @ q"] by simp
    ultimately show ?thesis by (simp add: withDirs_other)
  qed
  have par: "isDirectory t1 (dirname (d @ ?o))" if "isDirectory t (dirname (d @ ?o))"
  proof -
    have dn: "dirname (d @ ?o) = d @ dirname ?o" using ne by (rule dirname_append)
    have "\<not> prefix (d @ o1) (d @ dirname ?o)"
      using unrelated_dirname[OF un, of "[]"] by simp
    moreover have "\<not> prefix o1 (d @ dirname ?o)" by (rule unrelated_np0[OF u1])
    ultimately have "lookup t1 (d @ dirname ?o) = withDirs (dirname o1) (lookup t) (d @ dirname ?o)"
      by (rule movedTo_outside[OF mv])
    with that show ?thesis by (simp add: dn isDirectory_def withDirs_Some)
  qed
  have "ready d t1 e"
    unfolding ready_def
  proof (intro conjI allI impI)
    fix q show "lookup t1 (?o @ q) = None" by (rule orig)
  next
    fix q assume "prefix q (dirname ?o)"
    then show "lookup t1 q = None \<or> lookup t1 q = Some Dir" by (rule anc)
  next
    fix n assume a: "action e = ABackup" and n1: "lookup t1 (d @ ?o) = Some n"
    with copy[of "[]"] have n: "lookup t (d @ ?o) = Some n" by simp
    with r a show "entry_kind e = kindOf n" by (simp add: ready_def)
    from r n a have "isDirectory t (dirname (d @ ?o))" by (simp add: ready_def)
    then show "isDirectory t1 (dirname (d @ ?o))" by (rule par)
    fix q :: path assume "n \<noteq> Dir" "q \<noteq> []"
    with r n a have "lookup t (d @ ?o @ q) = None" by (simp add: ready_def)
    with copy[of q] show "lookup t1 (d @ ?o @ q) = None" by simp
  qed
  with copy show ?thesis by blast
qed

lemma framed_at_original:
  assumes f: "framed d es t t'"
    and un: "\<forall>e \<in> set es. unrelated o1 (originalPath e)"
    and u1: "unrelated o1 d"
  shows "lookup t' (o1 @ q) = lookup t (o1 @ q)"
proof -
  have a: "\<not> prefix (originalPath e) (o1 @ q) \<and> \<not> prefix (d @ originalPath e) (o1 @ q)"
    if "e \<in> set es" for e
  proof -
    from un that have u: "unrelated o1 (originalPath e)" by auto
    have "\<not> prefix (originalPath e) (o1 @ q)" by (rule unrelated_np0[OF unrelated_sym[OF u]])
    moreover have "\<not> prefix (d @ originalPath e) (o1 @ q)"
      by (rule unrelated_np[OF unrelated_sym[OF u1]])
    ultimately show ?thesis by blast
  qed
  have b: "\<not> prefix (o1 @ q) (dirname (originalPath e))" if "e \<in> set es" for e
    using un that unrelated_dirname[of o1 "originalPath e" q] by blast
  from f a have "lookup t' (o1 @ q) = lookup t (o1 @ q) \<or>
          (lookup t (o1 @ q) = None \<and> lookup t' (o1 @ q) = Some Dir \<and>
           (\<exists>e \<in> set es. prefix (o1 @ q) (dirname (originalPath e))))"
    unfolding framed_def by blast
  with b show ?thesis by blast
qed

lemma framed_at_copy:
  assumes f: "framed d es t t'"
    and un: "\<forall>e \<in> set es. unrelated o1 (originalPath e)"
    and ud: "\<forall>e \<in> set es. unrelated (originalPath e) d"
  shows "lookup t' (d @ o1 @ q) = lookup t (d @ o1 @ q)"
proof -
  have a: "\<not> prefix (originalPath e) (d @ o1 @ q) \<and> \<not> prefix (d @ originalPath e) (d @ o1 @ q)"
    if "e \<in> set es" for e
  proof -
    from un that have u: "unrelated o1 (originalPath e)" by auto
    from ud that have v: "unrelated (originalPath e) d" by auto
    have "\<not> prefix (originalPath e) (d @ o1 @ q)" by (rule unrelated_np0[OF v])
    moreover have "\<not> prefix (d @ originalPath e) (d @ o1 @ q)"
      using unrelated_np0[OF unrelated_sym[OF u], of q] by simp
    ultimately show ?thesis by blast
  qed
  have b: "\<not> prefix (d @ o1 @ q) (dirname (originalPath e))" if "e \<in> set es" for e
    using ud that unrelated_dirname[OF unrelated_sym, of "originalPath e" d "o1 @ q"] by blast
  from f a have "lookup t' (d @ o1 @ q) = lookup t (d @ o1 @ q) \<or>
          (\<exists>e \<in> set es. prefix (d @ o1 @ q) (dirname (originalPath e)))"
    unfolding framed_def by blast
  with b show ?thesis by blast
qed

lemma undoLoop_restores:
  assumes "apart (map originalPath es)" "\<forall>e \<in> set es. mirrored d e" "\<forall>e \<in> set es. ready d t e"
  shows "\<exists>c' t'. undoLoop es c t = (Inr c', t') \<and>
           (\<forall>e \<in> set es. restorable d t e \<longrightarrow>
              (\<forall>q. lookup t' (originalPath e @ q) = lookup t (d @ originalPath e @ q))) \<and>
           (\<forall>e \<in> set es. \<not> restorable d t e \<longrightarrow> (\<forall>q. lookup t' (originalPath e @ q) = None)) \<and>
           (\<forall>e \<in> set es. \<forall>q. lookup t' (d @ originalPath e @ q) =
              (if restorable d t e then None else lookup t (d @ originalPath e @ q))) \<and>
           framed d es t t' \<and> mounts t' = mounts t"
  using assms
proof (induction es arbitrary: c t)
  case Nil
  then show ?case by (simp add: ret_def framed_def)
next
  case (Cons e1 rest)
  let ?o1 = "originalPath e1"
  from Cons.prems have ap: "apart (map originalPath rest)"
    and un: "\<forall>e \<in> set rest. unrelated ?o1 (originalPath e)"
    and m1: "mirrored d e1" and mr: "\<forall>e \<in> set rest. mirrored d e"
    and r1: "ready d t e1" and rr: "\<forall>e \<in> set rest. ready d t e"
    by auto
  from m1 have u1: "unrelated ?o1 d" by (simp add: mirrored_def)
  show ?case
  proof (cases "restorable d t e1")
    case True
    from undoEntry_restores[OF m1 r1 True, of c] obtain c1 t1 where
      s1: "undoEntry e1 c t = (Inr c1, t1)" and mv: "movedTo t t1 (d @ ?o1) ?o1" by blast
    have keep: "ready d t1 e \<and> (\<forall>q. lookup t1 (d @ originalPath e @ q) = lookup t (d @ originalPath e @ q))"
      if "e \<in> set rest" for e
      using that restore_keeps_ready[OF mv u1, of e] mr un rr by blast
    then have rr1: "\<forall>e \<in> set rest. ready d t1 e" by blast
    from Cons.IH[OF ap mr rr1, of c1] obtain c' t' where
      lp: "undoLoop rest c1 t1 = (Inr c', t')" and
      i1: "\<forall>e \<in> set rest. restorable d t1 e \<longrightarrow>
              (\<forall>q. lookup t' (originalPath e @ q) = lookup t1 (d @ originalPath e @ q))" and
      i2: "\<forall>e \<in> set rest. \<not> restorable d t1 e \<longrightarrow> (\<forall>q. lookup t' (originalPath e @ q) = None)" and
      i3: "\<forall>e \<in> set rest. \<forall>q. lookup t' (d @ originalPath e @ q) =
              (if restorable d t1 e then None else lookup t1 (d @ originalPath e @ q))" and
      fr: "framed d rest t1 t'" and mo: "mounts t' = mounts t1"
      by blast
    from mr have ud: "\<forall>e \<in> set rest. unrelated (originalPath e) d" by (simp add: mirrored_def)
    have same: "restorable d t1 e = restorable d t e" if "e \<in> set rest" for e
      using keep[OF that] by (metis append_Nil2 restorable_def)
    have run: "undoLoop (e1 # rest) c t = (Inr c', t')"
      using s1 lp by (simp add: bind_def)
    have first: "lookup t' (?o1 @ q) = lookup t (d @ ?o1 @ q)" for q
    proof -
      have "lookup t' (?o1 @ q) = lookup t1 (?o1 @ q)"
        by (rule framed_at_original[OF fr un u1])
      also have "\<dots> = lookup t ((d @ ?o1) @ q)" using mv by (simp add: movedTo_def)
      finally show ?thesis by simp
    qed
    have c1: "\<forall>e \<in> set (e1 # rest). restorable d t e \<longrightarrow>
              (\<forall>q. lookup t' (originalPath e @ q) = lookup t (d @ originalPath e @ q))"
      using first i1 same keep by auto
    have c2: "\<forall>e \<in> set (e1 # rest). \<not> restorable d t e \<longrightarrow> (\<forall>q. lookup t' (originalPath e @ q) = None)"
      using True i2 same by auto
    have left: "lookup t' (d @ ?o1 @ q) = None" for q
    proof -
      have "lookup t' (d @ ?o1 @ q) = lookup t1 ((d @ ?o1) @ q)"
        using framed_at_copy[OF fr un ud, of q] by simp
      with mv show ?thesis by (simp add: movedTo_def)
    qed
    have c5: "\<forall>e \<in> set (e1 # rest). \<forall>q. lookup t' (d @ originalPath e @ q) =
              (if restorable d t e then None else lookup t (d @ originalPath e @ q))"
      using True left i3 same keep by simp
    have c3: "framed d (e1 # rest) t t'"
      unfolding framed_def
    proof (intro allI impI)
      fix p
      assume h: "\<forall>e \<in> set (e1 # rest). \<not> prefix (originalPath e) p \<and> \<not> prefix (d @ originalPath e) p"
      then have "lookup t1 p = withDirs (dirname ?o1) (lookup t) p"
        by (intro movedTo_outside[OF mv]) simp_all
      then have a: "lookup t1 p = lookup t p \<or>
                    (lookup t p = None \<and> lookup t1 p = Some Dir \<and> prefix p (dirname ?o1))"
        by (auto simp: withDirs_def)
      from fr h have b: "lookup t' p = lookup t1 p \<or>
          (lookup t1 p = None \<and> lookup t' p = Some Dir \<and>
           (\<exists>e \<in> set rest. prefix p (dirname (originalPath e))))"
        unfolding framed_def by simp
      from a b show "lookup t' p = lookup t p \<or>
          (lookup t p = None \<and> lookup t' p = Some Dir \<and>
           (\<exists>e \<in> set (e1 # rest). prefix p (dirname (originalPath e))))"
        by auto
    qed
    from mv mo have c4: "mounts t' = mounts t" by (simp add: movedTo_def)
    from run c1 c2 c5 c3 c4 show ?thesis by blast
  next
    case False
    from undoEntry_skips[OF m1 r1 False, of c] have s1: "undoEntry e1 c t = (Inr c, t)" .
    from Cons.IH[OF ap mr rr, of c] obtain c' t' where
      lp: "undoLoop rest c t = (Inr c', t')" and
      i1: "\<forall>e \<in> set rest. restorable d t e \<longrightarrow>
              (\<forall>q. lookup t' (originalPath e @ q) = lookup t (d @ originalPath e @ q))" and
      i2: "\<forall>e \<in> set rest. \<not> restorable d t e \<longrightarrow> (\<forall>q. lookup t' (originalPath e @ q) = None)" and
      i3: "\<forall>e \<in> set rest. \<forall>q. lookup t' (d @ originalPath e @ q) =
              (if restorable d t e then None else lookup t (d @ originalPath e @ q))" and
      fr: "framed d rest t t'" and mo: "mounts t' = mounts t"
      by blast
    from mr have ud: "\<forall>e \<in> set rest. unrelated (originalPath e) d" by (simp add: mirrored_def)
    have run: "undoLoop (e1 # rest) c t = (Inr c', t')"
      using s1 lp by (simp add: bind_def)
    have first: "lookup t' (?o1 @ q) = None" for q
    proof -
      have "lookup t' (?o1 @ q) = lookup t (?o1 @ q)"
        by (rule framed_at_original[OF fr un u1])
      with r1 show ?thesis by (simp add: ready_def)
    qed
    have c1: "\<forall>e \<in> set (e1 # rest). restorable d t e \<longrightarrow>
              (\<forall>q. lookup t' (originalPath e @ q) = lookup t (d @ originalPath e @ q))"
      using False i1 by auto
    have c2: "\<forall>e \<in> set (e1 # rest). \<not> restorable d t e \<longrightarrow> (\<forall>q. lookup t' (originalPath e @ q) = None)"
      using first i2 by auto
    have c5: "\<forall>e \<in> set (e1 # rest). \<forall>q. lookup t' (d @ originalPath e @ q) =
              (if restorable d t e then None else lookup t (d @ originalPath e @ q))"
      using False framed_at_copy[OF fr un ud] i3 by simp
    have c3: "framed d (e1 # rest) t t'"
      using fr unfolding framed_def by auto
    from run c1 c2 c5 c3 mo show ?thesis by blast
  qed
qed

subsection \<open>Parking what stands at the original paths\<close>

lemma park_step:
  assumes ne: "o1 \<noteq> []" and u: "unrelated o1 (session_dir session)"
    and p: "parked (session_dir session) t o1" and n: "lookup t o1 = Some n"
    and sn: "\<forall>x \<in> set (seen session). unrelated x o1"
  shows "\<exists>t1. backupPath o1 session t =
                 (Inr (True, recorded session (backupEntryFor o1 (session_dir session @ o1) n)), t1) \<and>
              movedTo t t1 o1 (session_dir session @ o1)"
proof -
  let ?u = "session_dir session"
  have c: "canMove t o1 (backupPathFor o1 ?u)"
    unfolding canMove_def backupPathFor_def
  proof (intro conjI)
    show "o1 \<noteq> []" by (rule ne)
    show "?u @ o1 \<noteq> []" using ne by simp
    show "lookup t o1 \<noteq> None" using n by simp
    show "\<not> prefix o1 (?u @ o1)" by (rule unrelated_np0[OF u])
    show "\<not> prefix (?u @ o1) o1" using unrelated_np[OF unrelated_sym[OF u], of o1 "[]"] by simp
    show "\<forall>q. lookup t ((?u @ o1) @ q) = None" using p by (simp add: parked_def)
    show "\<forall>q. prefix q (dirname (?u @ o1)) \<longrightarrow> lookup t q = None \<or> lookup t q = Some Dir"
      using p by (simp add: parked_def)
    show "isDirectory t (dirname o1)" using p n by (simp add: parked_def)
    show "lookup t o1 \<noteq> Some Dir \<longrightarrow> (\<forall>q. q \<noteq> [] \<longrightarrow> lookup t (o1 @ q) = None)"
      using p n by (auto simp: parked_def)
  qed
  have hp: "\<not> hasParentPath o1 (seen session)"
    using sn by (auto simp: hasParentPath_iff unrelated_def)
  from backupPath_moves[OF c n hp] show ?thesis by (simp add: backupPathFor_def)
qed

lemma park_keeps:
  assumes mv: "movedTo t t1 o1 (u @ o1)"
    and ne1: "o1 \<noteq> []" and u1: "unrelated o1 u"
    and ne: "oj \<noteq> []" and uj: "unrelated oj u" and un: "unrelated o1 oj"
    and p: "parked u t oj"
  shows "parked u t1 oj \<and> (\<forall>q. lookup t1 (oj @ q) = lookup t (oj @ q))"
proof -
  have out: "lookup t1 p = withDirs (u @ dirname o1) (lookup t) p"
    if "\<not> prefix o1 p" "\<not> prefix (u @ o1) p" for p
    using movedTo_outside[OF mv that] by (simp add: dirname_append[OF ne1])
  have orig: "lookup t1 (oj @ q) = lookup t (oj @ q)" for q
  proof -
    have "lookup t1 (oj @ q) = withDirs (u @ dirname o1) (lookup t) (oj @ q)"
      by (intro out unrelated_np0[OF un] unrelated_np[OF unrelated_sym[OF uj]])
    moreover have "\<not> prefix (oj @ q) (u @ dirname o1)" by (rule unrelated_np[OF uj])
    ultimately show ?thesis by (simp add: withDirs_other)
  qed
  have f1: "lookup t1 (u @ oj @ q) = None" for q
  proof -
    have "lookup t1 (u @ oj @ q) = withDirs (u @ dirname o1) (lookup t) (u @ oj @ q)"
      using unrelated_np0[OF un, of q] by (intro out unrelated_np0[OF u1]) simp
    moreover have "\<not> prefix (u @ oj @ q) (u @ dirname o1)"
      using unrelated_dirname[OF unrelated_sym[OF un], of q] by simp
    moreover from p have "lookup t (u @ oj @ q) = None" by (simp add: parked_def)
    ultimately show ?thesis by (simp add: withDirs_other)
  qed
  have f2: "lookup t1 q = None \<or> lookup t1 q = Some Dir" if "prefix q (dirname (u @ oj))" for q
  proof -
    from that have q: "prefix q (u @ dirname oj)" by (simp add: dirname_append[OF ne])
    have "\<not> prefix o1 q"
    proof
      assume "prefix o1 q"
      with q have "prefix o1 (u @ dirname oj)" by (meson prefix_order.trans)
      with unrelated_np0[OF u1] show False by blast
    qed
    moreover have "\<not> prefix (u @ o1) q"
    proof
      assume "prefix (u @ o1) q"
      with q have "prefix (u @ o1) (u @ dirname oj)" by (meson prefix_order.trans)
      with unrelated_dirname[OF un, of "[]"] show False by simp
    qed
    ultimately have "lookup t1 q = withDirs (u @ dirname o1) (lookup t) q" by (rule out)
    moreover from p that have "lookup t q = None \<or> lookup t q = Some Dir" by (simp add: parked_def)
    ultimately show ?thesis by (auto simp: withDirs_def)
  qed
  have par: "isDirectory t1 (dirname oj)" if "isDirectory t (dirname oj)"
  proof -
    have "\<not> prefix o1 (dirname oj)" using unrelated_dirname[OF un, of "[]"] by simp
    moreover have "\<not> prefix (u @ o1) (dirname oj)"
      using unrelated_dirname[OF unrelated_sym[OF uj], of o1] by simp
    ultimately have "lookup t1 (dirname oj) = withDirs (u @ dirname o1) (lookup t) (dirname oj)"
      by (rule out)
    with that show ?thesis by (simp add: isDirectory_def withDirs_Some)
  qed
  have "parked u t1 oj"
    unfolding parked_def
  proof (intro conjI allI impI)
    fix q show "lookup t1 (u @ oj @ q) = None" by (rule f1)
  next
    fix q assume "prefix q (dirname (u @ oj))"
    then show "lookup t1 q = None \<or> lookup t1 q = Some Dir" by (rule f2)
  next
    fix n assume "lookup t1 oj = Some n"
    with orig[of "[]"] have n: "lookup t oj = Some n" by simp
    with p have "isDirectory t (dirname oj)" by (simp add: parked_def)
    then show "isDirectory t1 (dirname oj)" by (rule par)
    fix q :: path assume "n \<noteq> Dir" "q \<noteq> []"
    with p n have "lookup t (oj @ q) = None" by (simp add: parked_def)
    with orig[of q] show "lookup t1 (oj @ q) = None" by simp
  next
    fix q assume "lookup t1 oj = None"
    with orig[of "[]"] have "lookup t oj = None" by simp
    with p have "lookup t (oj @ q) = None" by (simp add: parked_def)
    with orig[of q] show "lookup t1 (oj @ q) = None" by simp
  qed
  with orig show ?thesis by blast
qed

lemma unrelated_nonempty: "unrelated a b \<Longrightarrow> a \<noteq> []"
  by (auto simp: unrelated_def)

lemma framedPark_at_original:
  assumes fr: "framedPark u os t t'"
    and un: "\<forall>orig \<in> set os. unrelated o1 orig" and u1: "unrelated o1 u"
  shows "lookup t' (o1 @ q) = lookup t (o1 @ q)"
proof -
  have out: "\<forall>orig \<in> set os. \<not> prefix orig (o1 @ q) \<and> \<not> prefix (u @ orig) (o1 @ q)"
    using un unrelated_np0[OF unrelated_sym] unrelated_np[OF unrelated_sym[OF u1]] by blast
  have "\<not> prefix (o1 @ q) (dirname (u @ orig))" for orig
    by (rule not_prefix_dirname_of) (rule unrelated_np[OF u1])
  with fr out show ?thesis unfolding framedPark_def by blast
qed

lemma framedPark_at_copy:
  assumes fr: "framedPark u os t t'"
    and un: "\<forall>orig \<in> set os. unrelated o1 orig" and uo: "\<forall>orig \<in> set os. unrelated orig u"
  shows "lookup t' (u @ o1 @ q) = lookup t (u @ o1 @ q)"
proof -
  have out: "\<not> prefix orig (u @ o1 @ q) \<and> \<not> prefix (u @ orig) (u @ o1 @ q)" if "orig \<in> set os" for orig
    using that un uo unrelated_np0[of orig u "o1 @ q"] unrelated_np0[OF unrelated_sym, of o1 orig q]
    by auto
  have "\<not> prefix (u @ o1 @ q) (dirname (u @ orig))" if "orig \<in> set os" for orig
  proof -
    from that un have a: "unrelated o1 orig" by blast
    then have "orig \<noteq> []" using unrelated_nonempty[OF unrelated_sym] by blast
    then have "dirname (u @ orig) = u @ dirname orig" by (rule dirname_append)
    with unrelated_dirname[OF a, of q] show ?thesis by simp
  qed
  with fr out show ?thesis unfolding framedPark_def by blast
qed

lemma backupExistingOriginals_parks:
  assumes "apart (map originalPath es)"
    and "\<forall>e \<in> set es. originalPath e \<noteq> [] \<and> unrelated (originalPath e) (session_dir session)"
    and "\<forall>e \<in> set es. parked (session_dir session) t (originalPath e)"
    and "\<forall>e \<in> set es. \<forall>x \<in> set (seen session). unrelated x (originalPath e)"
  shows "\<exists>session' t'. backupExistingOriginals es session t = (Inr session', t') \<and>
           session_dir session' = session_dir session \<and>
           manifestPath session' = manifestPath session \<and>
           (\<forall>e \<in> set es. \<forall>q. lookup t' (originalPath e @ q) = None \<and>
               lookup t' (session_dir session @ originalPath e @ q) = lookup t (originalPath e @ q)) \<and>
           framedPark (session_dir session) (map originalPath es) t t' \<and> mounts t' = mounts t"
  using assms
proof (induction es arbitrary: session t)
  case Nil
  then show ?case by (simp add: ret_def framedPark_def)
next
  case (Cons e1 rest)
  let ?o1 = "originalPath e1"
  let ?u = "session_dir session"
  from Cons.prems have ap: "apart (map originalPath rest)"
    and un: "\<forall>e \<in> set rest. unrelated ?o1 (originalPath e)"
    and ne1: "?o1 \<noteq> []" and u1: "unrelated ?o1 ?u"
    and nr: "\<forall>e \<in> set rest. originalPath e \<noteq> [] \<and> unrelated (originalPath e) ?u"
    and p1: "parked ?u t ?o1" and pr: "\<forall>e \<in> set rest. parked ?u t (originalPath e)"
    and s1: "\<forall>x \<in> set (seen session). unrelated x ?o1"
    and sr: "\<forall>e \<in> set rest. \<forall>x \<in> set (seen session). unrelated x (originalPath e)"
    by auto
  from un have un': "\<forall>orig \<in> set (map originalPath rest). unrelated ?o1 orig" by simp
  from nr have uo': "\<forall>orig \<in> set (map originalPath rest). unrelated orig ?u" by simp
  show ?case
  proof (cases "lookup t ?o1")
    case None
    from Cons.IH[OF ap nr pr sr] obtain session' t' where
      lp: "backupExistingOriginals rest session t = (Inr session', t')" and
      sd: "session_dir session' = ?u" and mp: "manifestPath session' = manifestPath session" and
      i1: "\<forall>e \<in> set rest. \<forall>q. lookup t' (originalPath e @ q) = None \<and>
               lookup t' (?u @ originalPath e @ q) = lookup t (originalPath e @ q)" and
      fr: "framedPark ?u (map originalPath rest) t t'" and mo: "mounts t' = mounts t"
      by blast
    have run: "backupExistingOriginals (e1 # rest) session t = (Inr session', t')"
      using None lp by (simp add: pathExists_def)
    have gone: "lookup t (?o1 @ q) = None" for q using p1 None by (simp add: parked_def)
    have a: "lookup t' (?o1 @ q) = None" for q
      using framedPark_at_original[OF fr un' u1, of q] gone by simp
    have b: "lookup t' (?u @ ?o1 @ q) = lookup t (?o1 @ q)" for q
    proof -
      have "lookup t' (?u @ ?o1 @ q) = lookup t (?u @ ?o1 @ q)"
        by (rule framedPark_at_copy[OF fr un' uo'])
      also have "\<dots> = None" using p1 by (simp add: parked_def)
      finally show ?thesis using gone by simp
    qed
    have c1: "\<forall>e \<in> set (e1 # rest). \<forall>q. lookup t' (originalPath e @ q) = None \<and>
               lookup t' (?u @ originalPath e @ q) = lookup t (originalPath e @ q)"
      using a b i1 by simp
    have c3: "framedPark ?u (map originalPath (e1 # rest)) t t'"
      using fr unfolding framedPark_def by auto
    from run sd mp c1 c3 mo show ?thesis by blast
  next
    case (Some n)
    from park_step[OF ne1 u1 p1 Some s1] obtain t1 where
      st: "backupPath ?o1 session t =
             (Inr (True, recorded session (backupEntryFor ?o1 (?u @ ?o1) n)), t1)" and
      mv: "movedTo t t1 ?o1 (?u @ ?o1)" by blast
    let ?s1 = "recorded session (backupEntryFor ?o1 (?u @ ?o1) n)"
    have sd1: "session_dir ?s1 = ?u" and mp1: "manifestPath ?s1 = manifestPath session"
      and se1: "set (seen ?s1) = insert ?o1 (set (seen session))"
      by (simp_all add: recorded_def backupEntryFor_def)
    have keep: "parked ?u t1 (originalPath e) \<and>
                (\<forall>q. lookup t1 (originalPath e @ q) = lookup t (originalPath e @ q))"
      if "e \<in> set rest" for e
      using that park_keeps[OF mv ne1 u1, of "originalPath e"] nr un pr by blast
    have nr1: "\<forall>e \<in> set rest. originalPath e \<noteq> [] \<and> unrelated (originalPath e) (session_dir ?s1)"
      using nr sd1 by simp
    have pr1: "\<forall>e \<in> set rest. parked (session_dir ?s1) t1 (originalPath e)"
      using keep sd1 by simp
    have sr1: "\<forall>e \<in> set rest. \<forall>x \<in> set (seen ?s1). unrelated x (originalPath e)"
      using sr un se1 by auto
    from Cons.IH[OF ap nr1 pr1 sr1] obtain session' t' where
      lp: "backupExistingOriginals rest ?s1 t1 = (Inr session', t')" and
      sd: "session_dir session' = session_dir ?s1" and mp: "manifestPath session' = manifestPath ?s1" and
      i1: "\<forall>e \<in> set rest. \<forall>q. lookup t' (originalPath e @ q) = None \<and>
               lookup t' (session_dir ?s1 @ originalPath e @ q) = lookup t1 (originalPath e @ q)" and
      fr0: "framedPark (session_dir ?s1) (map originalPath rest) t1 t'" and mo: "mounts t' = mounts t1"
      by blast
    from fr0 sd1 have fr: "framedPark ?u (map originalPath rest) t1 t'" by simp
    have run: "backupExistingOriginals (e1 # rest) session t = (Inr session', t')"
      using Some st lp by (simp add: pathExists_def bind_def)
    have a: "lookup t' (?o1 @ q) = None" for q
    proof -
      have "lookup t' (?o1 @ q) = lookup t1 (?o1 @ q)"
        by (rule framedPark_at_original[OF fr un' u1])
      with mv show ?thesis by (simp add: movedTo_def)
    qed
    have b: "lookup t' (?u @ ?o1 @ q) = lookup t (?o1 @ q)" for q
    proof -
      have "lookup t' (?u @ ?o1 @ q) = lookup t1 ((?u @ ?o1) @ q)"
        using framedPark_at_copy[OF fr un' uo', of q] by simp
      with mv show ?thesis by (simp add: movedTo_def)
    qed
    have c1: "\<forall>e \<in> set (e1 # rest). \<forall>q. lookup t' (originalPath e @ q) = None \<and>
               lookup t' (?u @ originalPath e @ q) = lookup t (originalPath e @ q)"
      using a b i1 keep sd1 by simp
    have c3: "framedPark ?u (map originalPath (e1 # rest)) t t'"
      unfolding framedPark_def
    proof (intro allI impI)
      fix p
      assume h: "\<forall>orig \<in> set (map originalPath (e1 # rest)). \<not> prefix orig p \<and> \<not> prefix (?u @ orig) p"
      then have "lookup t1 p = withDirs (dirname (?u @ ?o1)) (lookup t) p"
        by (intro movedTo_outside[OF mv]) simp_all
      then have x: "lookup t1 p = lookup t p \<or>
                    (lookup t p = None \<and> lookup t1 p = Some Dir \<and> prefix p (dirname (?u @ ?o1)))"
        by (auto simp: withDirs_def)
      from fr h have y: "lookup t' p = lookup t1 p \<or>
          (lookup t1 p = None \<and> lookup t' p = Some Dir \<and>
           (\<exists>orig \<in> set (map originalPath rest). prefix p (dirname (?u @ orig))))"
        unfolding framedPark_def by simp
      from x y show "lookup t' p = lookup t p \<or>
          (lookup t p = None \<and> lookup t' p = Some Dir \<and>
           (\<exists>orig \<in> set (map originalPath (e1 # rest)). prefix p (dirname (?u @ orig))))"
        by auto
    qed
    from mv mo have c4: "mounts t' = mounts t" by (simp add: movedTo_def)
    from run sd sd1 mp mp1 c1 c3 c4 show ?thesis by simp
  qed
qed

subsection \<open>From the selected manifest to the restore loop\<close>

lemma wf_ancestor:
  "wellFormed s \<Longrightarrow> lookup s (p @ q) \<noteq> None \<Longrightarrow> q \<noteq> [] \<Longrightarrow> lookup s p = Some Dir"
proof (induction q rule: rev_induct)
  case Nil
  then show ?case by simp
next
  case (snoc x xs)
  from snoc.prems(1,2) have d: "lookup s (dirname (p @ xs @ [x])) = Some Dir"
    unfolding wellFormed_def by blast
  have "dirname (p @ xs @ [x]) = p @ xs" by (simp add: dirname_def butlast_append)
  with d have e: "lookup s (p @ xs) = Some Dir" by simp
  show ?case
  proof (cases "xs = []")
    case True
    with e show ?thesis by simp
  next
    case False
    with snoc.IH[OF snoc.prems(1)] e show ?thesis by simp
  qed
qed

lemma wf_beneath:
  "wellFormed s \<Longrightarrow> lookup s p \<noteq> Some Dir \<Longrightarrow> q \<noteq> [] \<Longrightarrow> lookup s (p @ q) = None"
  using wf_ancestor by blast

lemma createBackupSession_result:
  assumes "\<forall>q. prefix q (join (join canon ''backup'') (pathSafe stamp)) \<longrightarrow>
               lookup s q = None \<or> lookup s q = Some Dir"
  shows "\<exists>session s0. createBackupSession stamp canon sc oper None s = (Inr session, s0) \<and>
           session_dir session = join (join canon ''backup'') (pathSafe stamp) \<and>
           manifestPath session = join (join (join canon ''backup'') (pathSafe stamp)) MANIFEST_NAME \<and>
           seen session = [] \<and>
           lookup s0 = withDirs (join (join canon ''backup'') (pathSafe stamp)) (lookup s) \<and>
           mounts s0 = mounts s"
proof -
  from ensureDir_succeeds[OF assms] obtain s0 where
    e: "ensureDir (join (join canon ''backup'') (pathSafe stamp)) s = (Inr (), s0)" by blast
  from ensureDir_result[OF e] e show ?thesis
    by (simp add: createBackupSession_def Let_def bind_def ret_def)
qed

lemma parked_after_create:
  assumes wf: "wellFormed s" and fresh: "\<forall>q. lookup s (u @ q) = None"
    and anc: "\<forall>q. prefix q u \<longrightarrow> lookup s q = None \<or> lookup s q = Some Dir"
    and s0: "lookup s0 = withDirs u (lookup s)" and uo: "unrelated orig u"
  shows "parked u s0 orig \<and> (\<forall>q. lookup s0 (orig @ q) = lookup s (orig @ q))"
proof -
  from uo have ne: "orig \<noteq> []" by (rule unrelated_nonempty)
  have same: "lookup s0 (orig @ q) = lookup s (orig @ q)" for q
    using unrelated_np[OF uo, of q "[]"] by (simp add: s0 withDirs_other)
  have f1: "lookup s0 (u @ orig @ q) = None" for q
  proof -
    have "\<not> prefix (u @ orig @ q) u" using ne by simp
    with fresh show ?thesis by (simp add: s0 withDirs_other)
  qed
  have f2: "lookup s0 q = None \<or> lookup s0 q = Some Dir" if "prefix q (dirname (u @ orig))" for q
  proof (cases "prefix q u")
    case True
    with anc show ?thesis by (auto simp: s0 withDirs_def)
  next
    case False
    from that have "prefix q (u @ dirname orig)" by (simp add: dirname_append[OF ne])
    with False obtain r where "q = u @ r" by (auto simp: prefix_append)
    with fresh False show ?thesis by (simp add: s0 withDirs_other)
  qed
  have "parked u s0 orig"
    unfolding parked_def
  proof (intro conjI allI impI)
    fix q show "lookup s0 (u @ orig @ q) = None" by (rule f1)
  next
    fix q assume "prefix q (dirname (u @ orig))"
    then show "lookup s0 q = None \<or> lookup s0 q = Some Dir" by (rule f2)
  next
    fix n assume "lookup s0 orig = Some n"
    with same[of "[]"] have n: "lookup s orig = Some n" by simp
    with wf ne have "lookup s (dirname orig) = Some Dir" unfolding wellFormed_def by simp
    then show "isDirectory s0 (dirname orig)" by (simp add: isDirectory_def s0 withDirs_Some)
    fix q :: path assume "n \<noteq> Dir" "q \<noteq> []"
    with wf_beneath[OF wf, of orig q] n have "lookup s (orig @ q) = None" by simp
    with same[of q] show "lookup s0 (orig @ q) = None" by simp
  next
    fix q assume "lookup s0 orig = None"
    with same[of "[]"] have n: "lookup s orig = None" by simp
    have "lookup s (orig @ q) = None"
    proof (cases "q = []")
      case True with n show ?thesis by simp
    next
      case False with wf_beneath[OF wf, of orig q] n show ?thesis by simp
    qed
    with same[of q] show "lookup s0 (orig @ q) = None" by simp
  qed
  with same show ?thesis by blast
qed

lemma copies_kept:
  assumes du: "unrelated d u" and s0: "lookup s0 = withDirs u (lookup s)"
    and fr: "framedPark u os s0 t1" and od: "\<forall>orig \<in> set os. unrelated orig d"
  shows "lookup t1 (d @ r) = lookup s (d @ r)"
proof -
  have a: "lookup s0 (d @ r) = lookup s (d @ r)"
    using unrelated_np[OF du, of r "[]"] by (simp add: s0 withDirs_other)
  have out: "\<forall>orig \<in> set os. \<not> prefix orig (d @ r) \<and> \<not> prefix (u @ orig) (d @ r)"
    using od unrelated_np0 unrelated_np[OF unrelated_sym[OF du]] by blast
  have "\<not> prefix (d @ r) (dirname (u @ orig))" for orig
    by (rule not_prefix_dirname_of) (rule unrelated_np[OF du])
  with fr out have "lookup t1 (d @ r) = lookup s0 (d @ r)" unfolding framedPark_def by blast
  with a show ?thesis by simp
qed

lemma ready_after_park:
  assumes wf: "wellFormed s" and en: "undoableEntry b d s e" and mem: "e \<in> set es"
    and od: "unrelated (originalPath e) d" and ou: "unrelated (originalPath e) u"
    and s0: "lookup s0 = withDirs u (lookup s)"
    and cp: "\<forall>r. lookup t1 (d @ r) = lookup s (d @ r)"
    and gone: "\<forall>e' \<in> set es. \<forall>q. lookup t1 (originalPath e' @ q) = None"
    and fr: "framedPark u (map originalPath es) s0 t1"
  shows "ready d t1 e"
proof -
  let ?o = "originalPath e"
  from od have ne: "?o \<noteq> []" by (rule unrelated_nonempty)
  have anc: "lookup t1 q = None \<or> lookup t1 q = Some Dir" if q: "prefix q (dirname ?o)" for q
  proof (cases "\<exists>e' \<in> set es. prefix (originalPath e') q")
    case True
    then obtain e' r where "e' \<in> set es" "q = originalPath e' @ r" by (auto simp: prefix_def)
    with gone show ?thesis by simp
  next
    case False
    from q have qo: "prefix q ?o" using dirname_prefix[of ?o] by (meson prefix_order.trans)
    have "\<not> prefix (u @ x) q" for x
    proof
      assume "prefix (u @ x) q"
      with qo have "prefix u ?o" by (meson append_prefixD prefix_order.trans)
      with ou show False by (simp add: unrelated_def)
    qed
    with False have "\<forall>orig \<in> set (map originalPath es). \<not> prefix orig q \<and> \<not> prefix (u @ orig) q"
      by simp
    with fr have "lookup t1 q = lookup s0 q \<or> lookup t1 q = Some Dir"
      unfolding framedPark_def by blast
    moreover from en q have "lookup s q = None \<or> lookup s q = Some Dir"
      by (simp add: undoableEntry_def)
    then have "lookup s0 q = None \<or> lookup s0 q = Some Dir" by (auto simp: s0 withDirs_def)
    ultimately show ?thesis by auto
  qed
  show ?thesis
    unfolding ready_def
  proof (intro conjI allI impI)
    fix q show "lookup t1 (?o @ q) = None" using gone mem by simp
  next
    fix q assume "prefix q (dirname ?o)"
    then show "lookup t1 q = None \<or> lookup t1 q = Some Dir" by (rule anc)
  next
    fix n assume a: "action e = ABackup" and n1: "lookup t1 (d @ ?o) = Some n"
    with cp have n: "lookup s (d @ ?o) = Some n" by simp
    with en a show "entry_kind e = kindOf n" by (simp add: undoableEntry_def)
    have "dirname (d @ ?o) = d @ dirname ?o" using ne by (rule dirname_append)
    moreover from wf n ne have "lookup s (dirname (d @ ?o)) = Some Dir"
      unfolding wellFormed_def by simp
    ultimately show "isDirectory t1 (dirname (d @ ?o))" using cp by (simp add: isDirectory_def)
    fix q :: path assume "n \<noteq> Dir" "q \<noteq> []"
    with wf_beneath[OF wf, of "d @ ?o" q] n have "lookup s (d @ ?o @ q) = None" by simp
    with cp show "lookup t1 (d @ ?o @ q) = None" by simp
  qed
qed

text \<open>Conditions of the round trip, as checks over the nodes of a filesystem.\<close>

lemma wellFormed_nodes:
  "list_all (\<lambda>(p, n). p = [] \<or> lookup s (dirname p) = Some Dir) (nodes s) \<Longrightarrow> wellFormed s"
  unfolding wellFormed_def
proof (intro allI impI)
  fix p
  assume a: "list_all (\<lambda>(p, n). p = [] \<or> lookup s (dirname p) = Some Dir) (nodes s)"
    and b: "p \<noteq> [] \<and> lookup s p \<noteq> None"
  then obtain n where "map_of (nodes s) p = Some n" by (auto simp: lookup_def)
  then have "(p, n) \<in> set (nodes s)" by (rule map_of_SomeD)
  with a b show "lookup s (dirname p) = Some Dir" by (auto simp: list_all_iff)
qed

lemma nothing_beneath_nodes:
  assumes "list_all (\<lambda>(p, n). \<not> prefix u p) (nodes s)" and "u \<noteq> []"
  shows "\<forall>q. lookup s (u @ q) = None"
proof
  fix q
  show "lookup s (u @ q) = None"
  proof (rule ccontr)
    assume "lookup s (u @ q) \<noteq> None"
    with assms(2) obtain n where "map_of (nodes s) (u @ q) = Some n" by (auto simp: lookup_def)
    then have "(u @ q, n) \<in> set (nodes s)" by (rule map_of_SomeD)
    with assms(1) show False by (auto simp: list_all_iff)
  qed
qed

lemma undoableEntry_prefixes:
  "undoableEntry b d s en =
     (unrelated (originalPath en) b \<and> \<not> prefix [MANIFEST_NAME] (originalPath en) \<and>
      list_all (\<lambda>q. lookup s q = None \<or> lookup s q = Some Dir) (prefixes (dirname (originalPath en))) \<and>
      (action en = ABackup \<longrightarrow>
         entry_backupPath en = Some (d @ originalPath en) \<and>
         (case lookup s (d @ originalPath en) of None \<Rightarrow> True
          | Some n \<Rightarrow> entry_kind en = kindOf n)))"
  by (auto simp: undoableEntry_def list_all_iff in_set_prefixes split: option.splits)


subsection \<open>The round trip\<close>

text \<open>
  Claim C1, refuted as stated. An operation records \<^verbatim>\<open>~/.claude/commands/new.md\<close> as a
  created path, writes it, and then backs up \<^verbatim>\<open>~/.claude/commands\<close>, which
  \<^verbatim>\<open>backupPath\<close> accepts because no recorded path is the directory or an ancestor of it.
  The manifest is finalized and \<^verbatim>\<open>findLatestBackup\<close> selects it. \<^verbatim>\<open>undoLastChange\<close>
  finds nothing at either original path, passes over the \<^verbatim>\<open>create\<close> entry and moves
  the directory back, so that \<^verbatim>\<open>new.md\<close>, which did not exist before the operation,
  exists after the undo.
\<close>

theorem undo_keeps_created_path_counterexample:
  "\<not> apart (map originalPath (entries manifestNested)) \<and>
   lookup fsBefore (commands0 @ [''new.md'']) = None \<and>
   fst (findLatestBackup (localeCompare env0) (canonicalRoot (resolveRoots env0 globalOpts))
          (snd (nestedOperation fsBefore)))
     = Inr (Some (session1, valueOf manifestNested)) \<and>
   entriesOrEmpty (valueOf manifestNested) = Some (entries manifestNested) \<and>
   fst (undoLastChange env0 globalOpts (snd (nestedOperation fsBefore)))
     = Inr \<lparr>restored = 1, restoredBackups = 1, removedCreated = 0, removedSymlinks = 0,
            backupDir = undoDir env0 globalOpts, undoneDir = session1\<rparr> \<and>
   lookup (snd (undoLastChange env0 globalOpts (snd (nestedOperation fsBefore))))
          (commands0 @ [''new.md'']) = Some (File (Text ''# new''))"
  by code_simp

text \<open>The undo of the selected manifest, phase by phase.\<close>

lemma undo_restores_core:
  assumes latest: "findLatestBackup (localeCompare e) (canonicalRoot (resolveRoots e opts)) s
                     = (Inr (Some (d, m)), s)"
    and ents: "entriesOrEmpty m = Some es"
    and wf: "wellFormed s"
    and fresh: "\<forall>q. lookup s (undoDir e opts @ q) = None"
    and ap: "apart (map originalPath es)"
    and en: "\<forall>en \<in> set es.
               undoableEntry (backupRoot (canonicalRoot (resolveRoots e opts))) d s en"
  shows "\<exists>res s'. undoLastChange e opts s = (Inr res, s') \<and>
           undoneDir res = d \<and> backupDir res = undoDir e opts \<and>
           (\<forall>en \<in> set es. \<forall>q.
              lookup s' (originalPath en @ q) =
                (if action en = ABackup then lookup s (d @ originalPath en @ q) else None) \<and>
              (action en = ABackup \<longrightarrow> lookup s' (d @ originalPath en @ q) = None) \<and>
              lookup s' (undoDir e opts @ originalPath en @ q) = lookup s (originalPath en @ q))"
proof -
  let ?canon = "canonicalRoot (resolveRoots e opts)"
  let ?b = "backupRoot ?canon"
  let ?u = "undoDir e opts"
  let ?es = "es"
  have u: "?u = ?b @ [pathSafe (now e)]" by (simp add: undoDir_def join_def)
  from findLatestBackup_some[OF latest] obtain name where
    d: "d = ?b @ [name]" and dd: "lookup s d = Some Dir"
    by (auto simp: join_def isDirectory_def)
  from fresh have fu: "lookup s ?u = None" by (metis append_Nil2)
  with dd d u have nn: "name \<noteq> pathSafe (now e)" by auto
  have du: "unrelated d ?u" using nn by (simp add: d u unrelated_def)
  have ancu: "\<forall>q. prefix q ?u \<longrightarrow> lookup s q = None \<or> lookup s q = Some Dir"
  proof (intro allI impI)
    fix q assume "prefix q ?u"
    then consider "q = ?u" | "prefix q ?b" by (auto simp: u)
    then show "lookup s q = None \<or> lookup s q = Some Dir"
    proof cases
      case 1 with fu show ?thesis by simp
    next
      case 2
      then obtain r where "?b = q @ r" by (auto simp: prefix_def)
      with d have "d = q @ (r @ [name])" by simp
      with wf_ancestor[OF wf, of q "r @ [name]"] dd show ?thesis by simp
    qed
  qed
  have ob: "unrelated (originalPath x) ?b" if "x \<in> set ?es" for x
    using en that by (simp add: undoableEntry_def)
  have ou: "unrelated (originalPath x) ?u" if "x \<in> set ?es" for x
    using unrelated_extend[OF ob[OF that], of "[]" "[pathSafe (now e)]"] by (simp add: u)
  have od: "unrelated (originalPath x) d" if "x \<in> set ?es" for x
    using unrelated_extend[OF ob[OF that], of "[]" "[name]"] by (simp add: d)
  from ancu have "\<forall>q. prefix q (join (join ?canon ''backup'') (pathSafe (now e))) \<longrightarrow>
                     lookup s q = None \<or> lookup s q = Some Dir"
    by (simp add: undoDir_def backupRoot_def)
  from createBackupSession_result[OF this, of "scope opts" "''undo''"] obtain session0 s0 where
    cs: "createBackupSession (now e) ?canon (scope opts) ''undo'' None s = (Inr session0, s0)" and
    sd0: "session_dir session0 = ?u" and mp0: "manifestPath session0 = ?u @ [MANIFEST_NAME]" and
    sn0: "seen session0 = []" and l0: "lookup s0 = withDirs ?u (lookup s)"
    by (auto simp: undoDir_def backupRoot_def join_def)
  have pk0: "parked ?u s0 (originalPath x) \<and>
             (\<forall>q. lookup s0 (originalPath x @ q) = lookup s (originalPath x @ q))"
    if "x \<in> set ?es" for x
    by (rule parked_after_create[OF wf fresh ancu l0 ou[OF that]])
  have "\<exists>session1 t1. backupExistingOriginals ?es session0 s0 = (Inr session1, t1) \<and>
           session_dir session1 = session_dir session0 \<and>
           manifestPath session1 = manifestPath session0 \<and>
           (\<forall>x \<in> set ?es. \<forall>q. lookup t1 (originalPath x @ q) = None \<and>
               lookup t1 (session_dir session0 @ originalPath x @ q) = lookup s0 (originalPath x @ q)) \<and>
           framedPark (session_dir session0) (map originalPath ?es) s0 t1 \<and> mounts t1 = mounts s0"
    using ap ou pk0 unrelated_nonempty[OF ou]
    by (intro backupExistingOriginals_parks) (simp_all add: sd0 sn0)
  then obtain session1 t1 where
    pk: "backupExistingOriginals ?es session0 s0 = (Inr session1, t1)" and
    sd1: "session_dir session1 = ?u" and mp1: "manifestPath session1 = ?u @ [MANIFEST_NAME]" and
    gone: "\<forall>x \<in> set ?es. \<forall>q. lookup t1 (originalPath x @ q) = None" and
    kept1: "\<forall>x \<in> set ?es. \<forall>q. lookup t1 (?u @ originalPath x @ q) = lookup s0 (originalPath x @ q)" and
    fr1: "framedPark ?u (map originalPath ?es) s0 t1"
    by (auto simp: sd0 mp0)
  have cp: "\<forall>r. lookup t1 (d @ r) = lookup s (d @ r)"
    using copies_kept[OF du l0 fr1] od by simp
  have rd: "\<forall>x \<in> set ?es. ready d t1 x"
    using ready_after_park[OF wf _ _ _ _ l0 cp gone fr1] en od ou by blast
  have mi: "\<forall>x \<in> set ?es. mirrored d x"
    using en od unrelated_nonempty[OF od] by (simp add: mirrored_def undoableEntry_def)
  from undoLoop_restores[OF ap mi rd, of noCounts] obtain c t2 where
    lp: "undoLoop ?es noCounts t1 = (Inr c, t2)" and
    r1: "\<forall>x \<in> set ?es. restorable d t1 x \<longrightarrow>
            (\<forall>q. lookup t2 (originalPath x @ q) = lookup t1 (d @ originalPath x @ q))" and
    r2: "\<forall>x \<in> set ?es. \<not> restorable d t1 x \<longrightarrow> (\<forall>q. lookup t2 (originalPath x @ q) = None)" and
    r3: "\<forall>x \<in> set ?es. \<forall>q. lookup t2 (d @ originalPath x @ q) =
            (if restorable d t1 x then None else lookup t1 (d @ originalPath x @ q))" and
    fr2: "framed d ?es t1 t2"
    by blast
  let ?mp = "?u @ [MANIFEST_NAME]"
  have nm: "\<not> prefix (originalPath x) [MANIFEST_NAME]" if "x \<in> set ?es" for x
  proof
    assume "prefix (originalPath x) [MANIFEST_NAME]"
    then have "originalPath x = [] \<or> originalPath x = [MANIFEST_NAME]"
      by (cases "originalPath x") simp_all
    with en that unrelated_nonempty[OF ou[OF that]] show False
      by (auto simp: undoableEntry_def)
  qed
  have out1: "\<forall>orig \<in> set (map originalPath ?es). \<not> prefix orig (?u @ r) \<and> \<not> prefix (?u @ orig) (?u @ r)"
    if "\<forall>x \<in> set ?es. \<not> prefix (originalPath x) r" for r
    using that unrelated_np0[OF ou] by auto
  have out2: "\<forall>x \<in> set ?es. \<not> prefix (originalPath x) (?u @ r) \<and> \<not> prefix (d @ originalPath x) (?u @ r)" for r
    using unrelated_np0[OF ou] unrelated_np[OF du] by blast
  have nd2: "\<not> prefix (?u @ r) (dirname (originalPath x))" if "x \<in> set ?es" for x r
    by (rule unrelated_dirname[OF unrelated_sym[OF ou[OF that]]])
  have step2: "lookup t2 (?u @ r) = lookup t1 (?u @ r)" for r
    using fr2 out2[of r] nd2 unfolding framed_def by blast
  have u0: "lookup s0 ?u = Some Dir" using fu by (simp add: l0 withDirs_def)
  have u1: "lookup t1 ?u = Some Dir"
  proof -
    have "\<forall>orig \<in> set (map originalPath ?es). \<not> prefix orig ?u \<and> \<not> prefix (?u @ orig) ?u"
      using ou unrelated_nonempty[OF ou] by (auto simp: unrelated_def)
    with fr1 u0 show ?thesis unfolding framedPark_def by metis
  qed
  with step2[of "[]"] have u2: "lookup t2 ?u = Some Dir" by simp
  have m0: "lookup s0 ?mp = None" using fresh by (simp add: l0 withDirs_other)
  have m1: "lookup t1 ?mp = None"
  proof -
    have "\<not> prefix ?mp (dirname (?u @ originalPath x))" if "x \<in> set ?es" for x
    proof
      assume a: "prefix ?mp (dirname (?u @ originalPath x))"
      have "dirname (?u @ originalPath x) = ?u @ dirname (originalPath x)"
        using unrelated_nonempty[OF ou[OF that]] by (rule dirname_append)
      with a have "prefix [MANIFEST_NAME] (dirname (originalPath x))" by simp
      with dirname_prefix[of "originalPath x"] have "prefix [MANIFEST_NAME] (originalPath x)"
        by (meson prefix_order.trans)
      with en that show False by (simp add: undoableEntry_def)
    qed
    then have nd: "\<forall>orig \<in> set (map originalPath ?es). \<not> prefix ?mp (dirname (?u @ orig))"
      by simp
    from out1[of "[MANIFEST_NAME]"] nm
    have outs: "\<forall>orig \<in> set (map originalPath ?es). \<not> prefix orig ?mp \<and> \<not> prefix (?u @ orig) ?mp"
      by blast
    from fr1 have "(\<forall>orig \<in> set (map originalPath ?es). \<not> prefix orig ?mp \<and> \<not> prefix (?u @ orig) ?mp)
        \<longrightarrow> lookup t1 ?mp = lookup s0 ?mp \<or>
            (lookup s0 ?mp = None \<and> lookup t1 ?mp = Some Dir \<and>
             (\<exists>orig \<in> set (map originalPath ?es). prefix ?mp (dirname (?u @ orig))))"
      unfolding framedPark_def by blast
    with outs have "lookup t1 ?mp = lookup s0 ?mp \<or>
            (\<exists>orig \<in> set (map originalPath ?es). prefix ?mp (dirname (?u @ orig)))"
      by blast
    with nd have "lookup t1 ?mp = lookup s0 ?mp" by blast
    with m0 show ?thesis by simp
  qed
  with step2[of "[MANIFEST_NAME]"] have m2: "lookup t2 ?mp = None" by simp
  let ?t3 = "put ?mp (File (ManifestJson (manifestOf session1))) t2"
  have fin: "finalizeBackup session1 t2 = (Inr (), ?t3)"
    using m2 u2
    by (simp add: finalizeBackup_def writing_def writeFile_def mp1 dirname_def isDirectory_def)
  have run: "undoLastChange e opts s =
      (Inr \<lparr>restored = restored c, restoredBackups = restoredBackups c,
            removedCreated = removedCreated c, removedSymlinks = removedSymlinks c,
            backupDir = ?u, undoneDir = d\<rparr>, ?t3)"
    using latest ents cs pk lp fin by (simp add: undoLastChange_def Let_def bind_def ret_def sd1)
  have orig: "lookup ?t3 (originalPath x @ q) =
                (if action x = ABackup then lookup s (d @ originalPath x @ q) else None)"
    if x: "x \<in> set ?es" for x q
  proof -
    have "originalPath x @ q \<noteq> ?mp" using unrelated_np0[OF ou[OF x], of "[MANIFEST_NAME]"]
      by (metis prefixI)
    with unrelated_nonempty[OF ou[OF x]]
    have a: "lookup ?t3 (originalPath x @ q) = lookup t2 (originalPath x @ q)"
      by (simp add: lookup_put)
    show ?thesis
    proof (cases "restorable d t1 x")
      case True
      with r1 x cp a show ?thesis by (simp add: restorable_def)
    next
      case False
      with r2 x a have n: "lookup ?t3 (originalPath x @ q) = None" by simp
      show ?thesis
      proof (cases "action x")
        case ACreate with n show ?thesis by simp
      next
        case ABackup
        with False cp have z: "lookup s (d @ originalPath x) = None" by (simp add: restorable_def)
        have "lookup s (d @ originalPath x @ q) = None"
        proof (cases "q = []")
          case True with z show ?thesis by simp
        next
          case False with wf_beneath[OF wf, of "d @ originalPath x" q] z show ?thesis by simp
        qed
        with n ABackup show ?thesis by simp
      qed
    qed
  qed
  have copy: "lookup ?t3 (d @ originalPath x @ q) = None"
    if x: "x \<in> set ?es" and a: "action x = ABackup" for x q
  proof -
    have "d @ originalPath x @ q \<noteq> ?mp"
      using unrelated_np[OF du, of "originalPath x @ q" "[MANIFEST_NAME]"] by (metis prefix_order.refl)
    then have b: "lookup ?t3 (d @ originalPath x @ q) = lookup t2 (d @ originalPath x @ q)"
      by (simp add: lookup_put d)
    show ?thesis
    proof (cases "restorable d t1 x")
      case True
      with r3 x b show ?thesis by simp
    next
      case False
      with a cp have z: "lookup s (d @ originalPath x) = None" by (simp add: restorable_def)
      have "lookup s (d @ originalPath x @ q) = None"
      proof (cases "q = []")
        case True with z show ?thesis by simp
      next
        case False with wf_beneath[OF wf, of "d @ originalPath x" q] z show ?thesis by simp
      qed
      with False r3 x b cp show ?thesis by simp
    qed
  qed
  have park: "lookup ?t3 (?u @ originalPath x @ q) = lookup s (originalPath x @ q)"
    if x: "x \<in> set ?es" for x q
  proof -
    have "originalPath x @ q \<noteq> [MANIFEST_NAME]" using nm[OF x] by (metis prefixI)
    then have "lookup ?t3 (?u @ originalPath x @ q) = lookup t2 (?u @ originalPath x @ q)"
      by (simp add: lookup_put u)
    also have "\<dots> = lookup t1 (?u @ originalPath x @ q)" by (rule step2)
    also have "\<dots> = lookup s0 (originalPath x @ q)" using kept1 x by simp
    also have "\<dots> = lookup s (originalPath x @ q)" using pk0[OF x] by simp
    finally show ?thesis .
  qed
  from run orig copy park show ?thesis by simp
qed

text \<open>
  Claim C1, amended. Let \<^verbatim>\<open>findLatestBackup\<close> select the manifest \<open>m\<close> of the session directory
  \<open>d\<close> in a well-formed filesystem \<open>s\<close> in which the directory of the undo session does not
  exist yet, and let \<open>es\<close> be the entries of \<open>m\<close>. If the original paths recorded in \<open>es\<close>
  are pairwise unrelated (none is another or lies beneath another) and every entry is
  undoable (its original path is unrelated to
  the backup directory, does not start with the name of the manifest and is led to by
  nothing but directories; a \<^verbatim>\<open>backup\<close> entry has the backup path that \<^verbatim>\<open>backupPath\<close>
  records and a copy, if still there, of the recorded kind), then \<^verbatim>\<open>undoLastChange\<close>
  resolves, names \<open>d\<close> as the undone directory, and leaves a filesystem in which, node for
  node, the original path of every \<^verbatim>\<open>backup\<close> entry holds the tree that its copy held in
  \<open>s\<close> (nothing, when the copy had vanished) and the copy is gone from \<open>d\<close>, the original
  path of every \<^verbatim>\<open>create\<close> entry holds nothing, and what stood at an original path in
  \<open>s\<close> is kept at the mirror of that path under the directory of the undo session.
\<close>

theorem undo_restores_recorded_paths:
  assumes latest: "findLatestBackup (localeCompare e) (canonicalRoot (resolveRoots e opts)) s
                     = (Inr (Some (d, m)), s)"
    and ents: "entriesOrEmpty m = Some es"
    and wf: "wellFormed s"
    and fresh: "\<forall>q. lookup s (undoDir e opts @ q) = None"
    and ap: "apart (map originalPath es)"
    and en: "\<forall>en \<in> set es.
               undoableEntry (backupRoot (canonicalRoot (resolveRoots e opts))) d s en"
  shows "\<exists>res s'. undoLastChange e opts s = (Inr res, s') \<and>
           undoneDir res = d \<and> backupDir res = undoDir e opts \<and>
           (\<forall>en \<in> set es. \<forall>q.
              lookup s' (originalPath en @ q) =
                (if action en = ABackup then lookup s (d @ originalPath en @ q) else None) \<and>
              (action en = ABackup \<longrightarrow> lookup s' (d @ originalPath en @ q) = None) \<and>
              lookup s' (undoDir e opts @ originalPath en @ q) = lookup s (originalPath en @ q))"
  using assms by (rule undo_restores_core)

theorem undo_restores_recorded_paths_witness:
  "\<exists>res s'. undoLastChange env0 globalOpts fsApplied = (Inr res, s') \<and>
      undoneDir res = session1 \<and>
      lookup fs0 [''home'', ''u'', ''.codex'', ''prompts''] = Some Dir \<and>
      lookup s' [''home'', ''u'', ''.codex'', ''prompts''] = Some Dir \<and>
      lookup fs0 [''home'', ''u'', ''.codex'', ''prompts'', ''keep.md''] = Some (File (Text ''# keep'')) \<and>
      lookup s' [''home'', ''u'', ''.codex'', ''prompts'', ''keep.md''] = Some (File (Text ''# keep'')) \<and>
      lookup s' (session1 @ [''home'', ''u'', ''.codex'', ''prompts'']) = None \<and>
      lookup fs0 [''home'', ''u'', ''.claude'', ''commands''] = None \<and>
      lookup s' [''home'', ''u'', ''.claude'', ''commands''] = None \<and>
      lookup s' (undoDir env0 globalOpts @ [''home'', ''u'', ''.claude'', ''commands''])
        = Some (Symlink (agents0 @ [''commands'']))"
proof -
  have h1: "findLatestBackup (localeCompare env0) (canonicalRoot (resolveRoots env0 globalOpts)) fsApplied
              = (Inr (Some (session1, valueOf manifest1)), fsApplied)"
    by code_simp
  have h0: "entriesOrEmpty (valueOf manifest1) = Some (entries manifest1)"
    by (simp add: entriesOrEmpty_def valueOf_def)
  have h2: "wellFormed fsApplied" by (rule wellFormed_nodes) code_simp
  have h3: "\<forall>q. lookup fsApplied (undoDir env0 globalOpts @ q) = None"
    by (rule nothing_beneath_nodes) code_simp+
  have h4: "apart (map originalPath (entries manifest1))" by code_simp
  have h5: "\<forall>en \<in> set (entries manifest1).
              undoableEntry (backupRoot (canonicalRoot (resolveRoots env0 globalOpts))) session1 fsApplied en"
    unfolding undoableEntry_prefixes by code_simp
  from undo_restores_recorded_paths[OF h1 h0 h2 h3 h4 h5] obtain res s' where
    run: "undoLastChange env0 globalOpts fsApplied = (Inr res, s')" and
    ud: "undoneDir res = session1" and
    rt: "\<forall>en \<in> set (entries manifest1). \<forall>q.
              lookup s' (originalPath en @ q) =
                (if action en = ABackup then lookup fsApplied (session1 @ originalPath en @ q) else None) \<and>
              (action en = ABackup \<longrightarrow> lookup s' (session1 @ originalPath en @ q) = None) \<and>
              lookup s' (undoDir env0 globalOpts @ originalPath en @ q) = lookup fsApplied (originalPath en @ q)"
    by blast
  have mem: "promptsEntry \<in> set (entries manifest1)" "claudeEntry \<in> set (entries manifest1)"
    by (simp_all add: manifest1_def)
  have o: "originalPath promptsEntry = [''home'', ''u'', ''.codex'', ''prompts'']"
          "originalPath claudeEntry = [''home'', ''u'', ''.claude'', ''commands'']"
          "action promptsEntry = ABackup" "action claudeEntry = ACreate"
    by (simp_all add: promptsEntry_def claudeEntry_def)
  have e1: "lookup fsApplied (session1 @ [''home'', ''u'', ''.codex'', ''prompts''] @ []) = Some Dir"
    by code_simp
  have e2: "lookup fsApplied (session1 @ [''home'', ''u'', ''.codex'', ''prompts''] @ [''keep.md''])
              = Some (File (Text ''# keep''))"
    by code_simp
  have e3: "lookup fsApplied ([''home'', ''u'', ''.claude'', ''commands''] @ [])
              = Some (Symlink (agents0 @ [''commands'']))"
    by code_simp
  have e4: "lookup fs0 [''home'', ''u'', ''.codex'', ''prompts''] = Some Dir"
           "lookup fs0 [''home'', ''u'', ''.claude'', ''commands''] = None"
           "lookup fs0 [''home'', ''u'', ''.codex'', ''prompts'', ''keep.md''] = Some (File (Text ''# keep''))"
    by code_simp+
  from rt mem(1) have p: "\<forall>q. lookup s' (originalPath promptsEntry @ q) =
      lookup fsApplied (session1 @ originalPath promptsEntry @ q) \<and>
      lookup s' (session1 @ originalPath promptsEntry @ q) = None"
    using o(3) by simp
  from rt mem(2) have c: "\<forall>q. lookup s' (originalPath claudeEntry @ q) = None \<and>
      lookup s' (undoDir env0 globalOpts @ originalPath claudeEntry @ q) = lookup fsApplied (originalPath claudeEntry @ q)"
    using o(4) by simp
  from p[rule_format, of "[]"] e1 have r1: "lookup s' [''home'', ''u'', ''.codex'', ''prompts''] = Some Dir"
    and r5: "lookup s' (session1 @ [''home'', ''u'', ''.codex'', ''prompts'']) = None"
    by (simp_all add: o)
  from p[rule_format, of "[''keep.md'']"] e2
  have r2: "lookup s' [''home'', ''u'', ''.codex'', ''prompts'', ''keep.md''] = Some (File (Text ''# keep''))"
    by (simp add: o)
  from c[rule_format, of "[]"] e3
  have r3: "lookup s' [''home'', ''u'', ''.claude'', ''commands''] = None"
    and r4: "lookup s' (undoDir env0 globalOpts @ [''home'', ''u'', ''.claude'', ''commands''])
        = Some (Symlink (agents0 @ [''commands'']))"
    by (simp_all add: o)
  from run ud r1 r2 r3 r4 r5 e4 show ?thesis by blast
qed

section \<open>The latest backup is the one undone\<close>

text \<open>
  Claim C5. Whatever \<^verbatim>\<open>findLatestBackup\<close> selects is a directory directly under the
  canonical root's backup directory that holds a manifest file which parses to a truthy
  value; a directory without a manifest file is never selected; the selection reads the
  filesystem only. When the manifests under the backup directory have strings as their
  \<^verbatim>\<open>createdAt\<close> and the host's \<^verbatim>\<open>localeCompare\<close> is a collation on them, the selected
  manifest's \<^verbatim>\<open>createdAt\<close> sorts last among them; when they are timestamps as the engine
  writes them, which \<^verbatim>\<open>localeCompare\<close> orders as their characters do, it is the
  lexicographically greatest. \<^verbatim>\<open>undoLastChange\<close> undoes the selected manifest: it
  is the undo, in a new session, of exactly the entries of that manifest, named by the
  selected directory; and under the conditions of the round trip it resolves and puts back
  what the selected directory holds. When the backup directory exists, every manifest
  file under it parses, the manifests have strings as their \<^verbatim>\<open>createdAt\<close> and at least
  one subdirectory holds one, a selection is made.
\<close>

theorem latest_backup_selection:
  "(\<forall>d m s'. findLatestBackup (localeCompare e) (canonicalRoot (resolveRoots e opts)) s
               = (Inr (Some (d, m)), s') \<longrightarrow>
      s' = s \<and>
      (\<exists>name. d = join (backupRoot (canonicalRoot (resolveRoots e opts))) name) \<and>
      isDirectory s d \<and> hasManifest s d m \<and>
      (\<forall>d'. \<not> pathExists (join d' MANIFEST_NAME) s \<longrightarrow> d' \<noteq> d) \<and>
      (allStamped (backupRoot (canonicalRoot (resolveRoots e opts))) s \<and>
       collation (localeCompare e) (stampsUnder (backupRoot (canonicalRoot (resolveRoots e opts))) s) \<longrightarrow>
         (\<forall>name' m'. isDirectory s (join (backupRoot (canonicalRoot (resolveRoots e opts))) name') \<and>
                      hasManifest s (join (backupRoot (canonicalRoot (resolveRoots e opts))) name') m'
                      \<longrightarrow> localeCompare e (stampOf m') (stampOf m) \<le> 0)) \<and>
      (ordersTimestamps (localeCompare e) \<and>
       timestamped (backupRoot (canonicalRoot (resolveRoots e opts))) s \<longrightarrow>
         (\<forall>name' m'. isDirectory s (join (backupRoot (canonicalRoot (resolveRoots e opts))) name') \<and>
                      hasManifest s (join (backupRoot (canonicalRoot (resolveRoots e opts))) name') m'
                      \<longrightarrow> stampOf m' \<le> stampOf m)) \<and>
      undoLastChange e opts s =
        bind (createBackupSession (now e) (canonicalRoot (resolveRoots e opts)) (scope opts)
                ''undo'' None)
          (\<lambda>undoSession.
             case entriesOrEmpty m of
               None \<Rightarrow> throw TypeError
             | Some entryList \<Rightarrow>
                 bind (backupExistingOriginals entryList undoSession) (\<lambda>undoSession'.
                 bind (undoLoop entryList noCounts) (\<lambda>c.
                 bind (finalizeBackup undoSession') (\<lambda>_.
                   ret \<lparr>restored = restored c, restoredBackups = restoredBackups c,
                        removedCreated = removedCreated c, removedSymlinks = removedSymlinks c,
                        backupDir = session_dir undoSession', undoneDir = d\<rparr>)))) s \<and>
      (\<forall>es. entriesOrEmpty m = Some es \<and> wellFormed s \<and>
            (\<forall>q. lookup s (undoDir e opts @ q) = None) \<and>
            apart (map originalPath es) \<and>
            (\<forall>en \<in> set es.
               undoableEntry (backupRoot (canonicalRoot (resolveRoots e opts))) d s en) \<longrightarrow>
         (\<exists>res s2. undoLastChange e opts s = (Inr res, s2) \<and> undoneDir res = d \<and>
            (\<forall>en \<in> set es. \<forall>q.
               lookup s2 (originalPath en @ q) =
                 (if action en = ABackup then lookup s (d @ originalPath en @ q) else None))))) \<and>
   (isDirectory s (backupRoot (canonicalRoot (resolveRoots e opts))) \<and>
    (\<forall>name. isDirectory s (join (backupRoot (canonicalRoot (resolveRoots e opts))) name) \<and>
        pathExists (join (join (backupRoot (canonicalRoot (resolveRoots e opts))) name) MANIFEST_NAME) s
        \<longrightarrow> parses s (join (backupRoot (canonicalRoot (resolveRoots e opts))) name)) \<and>
    allStamped (backupRoot (canonicalRoot (resolveRoots e opts))) s \<and>
    (\<exists>name m. isDirectory s (join (backupRoot (canonicalRoot (resolveRoots e opts))) name) \<and>
        hasManifest s (join (backupRoot (canonicalRoot (resolveRoots e opts))) name) m)
    \<longrightarrow> (\<exists>d m. findLatestBackup (localeCompare e) (canonicalRoot (resolveRoots e opts)) s
                  = (Inr (Some (d, m)), s)))"
proof (intro conjI allI impI)
  let ?canon = "canonicalRoot (resolveRoots e opts)"
  let ?B = "backupRoot ?canon"
  fix d m s'
  assume sel0: "findLatestBackup (localeCompare e) ?canon s = (Inr (Some (d, m)), s')"
  note some = findLatestBackup_some[OF sel0]
  from some show s': "s' = s" by blast
  from some show nm: "\<exists>name. d = join ?B name" by blast
  from some show dd: "isDirectory s d" by blast
  from some show hm: "hasManifest s d m" by blast
  from sel0 s' have sel: "findLatestBackup (localeCompare e) ?canon s = (Inr (Some (d, m)), s)"
    by simp
  {
    fix d'
    assume "\<not> pathExists (join d' MANIFEST_NAME) s"
    with hm show "d' \<noteq> d" by (auto simp: hasManifest_def)
  }
  {
    fix name' m'
    assume h: "allStamped ?B s \<and> collation (localeCompare e) (stampsUnder ?B s)"
      and o: "isDirectory s (join ?B name') \<and> hasManifest s (join ?B name') m'"
    with findLatestBackup_greatest[OF sel0, of name' m']
    show "localeCompare e (stampOf m') (stampOf m) \<le> 0" by blast
  }
  {
    fix name' m'
    assume h0: "ordersTimestamps (localeCompare e) \<and> timestamped ?B s"
      and o: "isDirectory s (join ?B name') \<and> hasManifest s (join ?B name') m'"
    from h0 timestamped_ordered[of "localeCompare e" ?B s]
    have h: "allStamped ?B s \<and> characterOrdered (localeCompare e) (stampsUnder ?B s)" by blast
    from h characterOrdered_collation have "collation (localeCompare e) (stampsUnder ?B s)" by blast
    with h o findLatestBackup_greatest[OF sel0, of name' m']
    have le: "localeCompare e (stampOf m') (stampOf m) \<le> 0" by blast
    from o have a: "stampOf m' \<in> stampsUnder ?B s" by (auto simp: stampsUnder_def)
    from nm dd hm have b: "stampOf m \<in> stampsUnder ?B s" by (auto simp: stampsUnder_def)
    from h a b le characterOrdered_le show "stampOf m' \<le> stampOf m" by blast
  }
  from sel show "undoLastChange e opts s =
        bind (createBackupSession (now e) ?canon (scope opts) ''undo'' None)
          (\<lambda>undoSession.
             case entriesOrEmpty m of
               None \<Rightarrow> throw TypeError
             | Some entryList \<Rightarrow>
                 bind (backupExistingOriginals entryList undoSession) (\<lambda>undoSession'.
                 bind (undoLoop entryList noCounts) (\<lambda>c.
                 bind (finalizeBackup undoSession') (\<lambda>_.
                   ret \<lparr>restored = restored c, restoredBackups = restoredBackups c,
                        removedCreated = removedCreated c, removedSymlinks = removedSymlinks c,
                        backupDir = session_dir undoSession', undoneDir = d\<rparr>)))) s"
    by (simp add: undoLastChange_def Let_def bind_def)
  {
    fix es
    assume h: "entriesOrEmpty m = Some es \<and> wellFormed s \<and>
            (\<forall>q. lookup s (undoDir e opts @ q) = None) \<and>
            apart (map originalPath es) \<and>
            (\<forall>en \<in> set es. undoableEntry ?B d s en)"
    then have h1: "entriesOrEmpty m = Some es" and h2: "wellFormed s"
      and h3: "\<forall>q. lookup s (undoDir e opts @ q) = None" and h4: "apart (map originalPath es)"
      and h5: "\<forall>en \<in> set es. undoableEntry ?B d s en" by blast+
    from undo_restores_core[OF sel h1 h2 h3 h4 h5]
    show "\<exists>res s2. undoLastChange e opts s = (Inr res, s2) \<and> undoneDir res = d \<and>
            (\<forall>en \<in> set es. \<forall>q.
               lookup s2 (originalPath en @ q) =
                 (if action en = ABackup then lookup s (d @ originalPath en @ q) else None))"
      by blast
  }
next
  let ?canon = "canonicalRoot (resolveRoots e opts)"
  let ?B = "backupRoot ?canon"
  assume h: "isDirectory s ?B \<and>
    (\<forall>name. isDirectory s (join ?B name) \<and> pathExists (join (join ?B name) MANIFEST_NAME) s
        \<longrightarrow> parses s (join ?B name)) \<and>
    allStamped ?B s \<and>
    (\<exists>name m. isDirectory s (join ?B name) \<and> hasManifest s (join ?B name) m)"
  then obtain name0 m0 where
    "isDirectory s (join ?B name0)" "hasManifest s (join ?B name0) m0"
    by blast
  with h show "\<exists>d m. findLatestBackup (localeCompare e) ?canon s = (Inr (Some (d, m)), s)"
    by (intro findLatestBackup_total[of s ?canon name0 m0]) blast+
qed

theorem latest_backup_selection_witness:
  "findLatestBackup (localeCompare env0) (canonicalRoot (resolveRoots env0 globalOpts)) fsApplied
     = (Inr (Some (session1, valueOf manifest1)), fsApplied) \<and>
   isDirectory fsApplied session1 \<and> hasManifest fsApplied session1 (valueOf manifest1) \<and>
   isDirectory fsApplied sessionOld \<and> hasManifest fsApplied sessionOld (valueOf manifestOld) \<and>
   createdAt manifestOld \<le> createdAt manifest1 \<and>
   \<not> pathExists (join sessionOpen MANIFEST_NAME) fsApplied \<and> sessionOpen \<noteq> session1 \<and>
   (\<exists>res s2. undoLastChange env0 globalOpts fsApplied = (Inr res, s2) \<and> undoneDir res = session1 \<and>
      lookup s2 [''home'', ''u'', ''.codex'', ''prompts'', ''keep.md''] = Some (File (Text ''# keep''))) \<and>
   findLatestBackup (localeCompare envDictionary) (canonicalRoot (resolveRoots envDictionary globalOpts))
       fsHandWritten
     = (Inr (Some (agents0 @ [''backup'', ''y''], manifestB)), fsHandWritten) \<and>
   hasManifest fsHandWritten (agents0 @ [''backup'', ''x'']) manifestA \<and>
   localeCompare envDictionary ''a'' ''B'' \<le> 0 \<and> \<not> ''a'' \<le> ''B''"
proof -
  let ?B = "backupRoot (canonicalRoot (resolveRoots env0 globalOpts))"
  have ev: "findLatestBackup (localeCompare env0) (canonicalRoot (resolveRoots env0 globalOpts)) fsApplied
              = (Inr (Some (session1, valueOf manifest1)), fsApplied)"
    by code_simp
  have old: "sessionOld = join ?B ''2024-09-09T09-09-09-999Z''"
    by code_simp
  have oldm: "isDirectory fsApplied (join ?B ''2024-09-09T09-09-09-999Z'') \<and>
              hasManifest fsApplied (join ?B ''2024-09-09T09-09-09-999Z'') (valueOf manifestOld)"
    by code_simp
  have nomf: "\<not> pathExists (join sessionOpen MANIFEST_NAME) fsApplied"
    by code_simp
  have st: "timestamped ?B fsApplied"
    by (rule timestamped_files) code_simp
  have "localeCompare env0 = characterOrder" by (simp add: env0_def)
  then have co: "ordersTimestamps (localeCompare env0)"
    by (simp add: ordersTimestamps_def characterOrder_ordered)
  have h0: "entriesOrEmpty (valueOf manifest1) = Some (entries manifest1)"
    by (simp add: entriesOrEmpty_def valueOf_def)
  have h2: "wellFormed fsApplied" by (rule wellFormed_nodes) code_simp
  have h3: "\<forall>q. lookup fsApplied (undoDir env0 globalOpts @ q) = None"
    by (rule nothing_beneath_nodes) code_simp+
  have h4: "apart (map originalPath (entries manifest1))" by code_simp
  have h5: "\<forall>en \<in> set (entries manifest1). undoableEntry ?B session1 fsApplied en"
    unfolding undoableEntry_prefixes by code_simp
  note sel = latest_backup_selection[of env0 globalOpts fsApplied, THEN conjunct1, rule_format, OF ev]
  from sel have a: "isDirectory fsApplied session1 \<and> hasManifest fsApplied session1 (valueOf manifest1)"
    by blast
  from sel st co oldm have "stampOf (valueOf manifestOld) \<le> stampOf (valueOf manifest1)"
    by blast
  then have b: "createdAt manifestOld \<le> createdAt manifest1"
    by (simp add: stampOf_def valueOf_def toString_def)
  from sel nomf have c: "sessionOpen \<noteq> session1" by blast
  from sel h0 h2 h3 h4 h5 obtain res s2 where
    run: "undoLastChange env0 globalOpts fsApplied = (Inr res, s2)" "undoneDir res = session1" and
    rt: "\<forall>en \<in> set (entries manifest1). \<forall>q.
               lookup s2 (originalPath en @ q) =
                 (if action en = ABackup then lookup fsApplied (session1 @ originalPath en @ q) else None)"
    by blast
  have "promptsEntry \<in> set (entries manifest1)" by (simp add: manifest1_def)
  with rt have "lookup s2 (originalPath promptsEntry @ [''keep.md'']) =
      (if action promptsEntry = ABackup
       then lookup fsApplied (session1 @ originalPath promptsEntry @ [''keep.md'']) else None)"
    by blast
  moreover have "(if action promptsEntry = ABackup
       then lookup fsApplied (session1 @ originalPath promptsEntry @ [''keep.md'']) else None)
      = Some (File (Text ''# keep''))" by code_simp
  moreover have "originalPath promptsEntry @ [''keep.md''] = [''home'', ''u'', ''.codex'', ''prompts'', ''keep.md'']"
    by (simp add: promptsEntry_def)
  ultimately have d: "lookup s2 [''home'', ''u'', ''.codex'', ''prompts'', ''keep.md''] = Some (File (Text ''# keep''))"
    by simp

  let ?D = "backupRoot (canonicalRoot (resolveRoots envDictionary globalOpts))"
  have ev2: "findLatestBackup (localeCompare envDictionary) (canonicalRoot (resolveRoots envDictionary globalOpts))
       fsHandWritten = (Inr (Some (agents0 @ [''backup'', ''y''], manifestB)), fsHandWritten)"
    by code_simp
  have st2: "allStamped ?D fsHandWritten"
    by (rule allStamped_files) code_simp
  have "collation (localeCompare envDictionary) (set (map stampOf (fileManifests fsHandWritten)))"
    by code_simp
  then have co2: "collation (localeCompare envDictionary) (stampsUnder ?D fsHandWritten)"
    by (rule collation_subset) (rule stampsUnder_files)
  have x: "isDirectory fsHandWritten (join ?D ''x'') \<and> hasManifest fsHandWritten (join ?D ''x'') manifestA"
    by code_simp
  have xp: "join ?D ''x'' = agents0 @ [''backup'', ''x'']" by code_simp
  note sel2 = latest_backup_selection[of envDictionary globalOpts fsHandWritten, THEN conjunct1,
                rule_format, OF ev2]
  from sel2 st2 co2 x have "localeCompare envDictionary (stampOf manifestA) (stampOf manifestB) \<le> 0"
    by blast
  then have e: "localeCompare envDictionary ''a'' ''B'' \<le> 0"
    by (simp add: stampOf_def manifestA_def manifestB_def toString_def)
  have f: "\<not> ''a'' \<le> ''B''" by code_simp
  from ev a old oldm b nomf c run d ev2 x xp e f show ?thesis by auto
qed

text \<open>
  Manifest files that the engine did not write: a manifest file that holds \<^verbatim>\<open>{}\<close> is
  selected and undone with no entries, and one that holds \<^verbatim>\<open>null\<close> counts as no
  manifest.
\<close>

lemma undo_of_other_json:
  "fst (undoLastChange env0 globalOpts fsEmptyObject) =
     Inr \<lparr>restored = 0, restoredBackups = 0, removedCreated = 0, removedSymlinks = 0,
          backupDir = undoDir env0 globalOpts, undoneDir = agents0 @ [''backup'', ''x'']\<rparr> \<and>
   fst (undoLastChange env0 globalOpts fsNull) = Inl NoBackups"
  by code_simp

end
